theory Spec2Isabelle
  imports Main
begin

section \<open>Values, operations and the object store\<close>

text \<open>
  The engine of \<^verbatim>\<open>panel/interactive.py\<close> wraps an arbitrary Python object and
  records the operations applied to it.  Python objects are references, several nodes
  share one root cell and every node carries a mutable cache, so the model is an
  explicit store: nodes, root cells and \<^verbatim>\<open>Wrapper\<close> objects are addressed by
  their index in a list.
\<close>

datatype exn = AttributeError | TypeError | ValueError | IndexError | OtherError string

text \<open>The owner of a reactive parameter: a widget, a \<^verbatim>\<open>Wrapper\<close> or another
  parameterized object.\<close>

datatype owner = Widget nat | Wrapper nat | Owner nat

text \<open>The callables that the operator methods of the class record.\<close>

datatype opr =
    Abs | Round | Ceil | Floor | Inv | Neg | Not | Pos | Trunc
  | Add | And | Contains | Divmod | Eq | Floordiv | Ge | Gt | Le | Lt | Lshift
  | Matmul | Mod | Mul | Ne | Or | Rshift | Pow | Sub | Truediv | Xor
  | Getitem | Ufunc string string

text \<open>
  Python values.  An operand of a recorded operation is any value: a plain one, a
  node of the engine (\<open>VNode\<close>), a reactive parameter (\<open>VParam\<close>, owner and name), a
  widget, a function with its declared dependencies (\<open>VFun\<close>), a slice, or a list, tuple
  or dict of such.  \<open>VObj\<close> is an opaque object; what its attributes and operators
  do is given by the environment below.
\<close>

datatype val =
    VNone | VBool bool | VInt int | VStr string
  | VList "val list" | VTuple "val list" | VDict "(val \<times> val) list"
  | VSlice val val val
  | VWidget nat | VParam owner string | VNode nat | VFun string "(owner \<times> string) list"
  | VObj nat

type_synonym param = "owner \<times> string"
type_synonym kwargs = "(string \<times> val) list"

text \<open>\<^verbatim>\<open>operation['fn']\<close> is a method name (a \<^verbatim>\<open>str\<close>) or a callable.\<close>

datatype fnref = Method string | Fn opr

record operation =
  op_fn :: fnref
  op_args :: "val list"
  op_kwargs :: kwargs
  op_reverse :: bool

text \<open>
  The root producer \<^verbatim>\<open>_fn\<close>: \<^verbatim>\<open>bind(lambda obj: obj, p)\<close> over one parameter,
  a user function with its declared dependencies, or the function that
  \<^verbatim>\<open>_interactive_transform\<close> makes of a node,
  \<^verbatim>\<open>bind(lambda *_: obj.eval(), *obj._params)\<close>, with the node and the parameters read
  off it when it was bound.  \<^verbatim>\<open>__new__\<close> sets \<^verbatim>\<open>_fn\<close> on every path, so the field is
  never \<^verbatim>\<open>None\<close>.
\<close>

datatype producer = Bind param | UserFn string "param list" | NodeFn nat "param list"

record node =
  n_fn :: producer
  n_shared_obj :: "nat option"
  n_wrapper :: "nat option"
  n_method :: "string option"
  n_operation :: "operation option"
  n_depth :: nat
  n_prev :: "nat option"
  n_kwargs :: kwargs
  n_dirty :: bool
  n_current :: val

text \<open>A watcher registered with \<^verbatim>\<open>owner.param.watch(callback, names)\<close>; the two
  callbacks of the class are \<^verbatim>\<open>_update_obj\<close> and \<^verbatim>\<open>_invalidate_current\<close> of a node.\<close>

datatype callback = UpdateObj nat | InvalidateCurrent nat

record watcher =
  w_owner :: owner
  w_names :: "string list"
  w_callback :: callback

text \<open>One invocation of an operator or a method of the wrapped value.\<close>

record invocation =
  i_fn :: fnref
  i_args :: "val list"
  i_kwargs :: kwargs

record heap =
  nodes :: "node list"
  cells :: "val list"
  wrappers :: "val list"
  pvals :: "(param \<times> val) list"
  funs :: "(string \<times> val) list"
  watchers :: "watcher list"
  log :: "invocation list"

text \<open>
  What the wrapped objects do is outside the engine (it "knows nothing about what the
  wrapped value actually is"), so it is a parameter: attribute lookup, \<^verbatim>\<open>dir\<close>,
  applying a callable, calling a value, and \<^verbatim>\<open>hasattr(obj, '__call__')\<close>.
\<close>

record pyenv =
  py_getattr :: "val \<Rightarrow> string \<Rightarrow> val option"
  py_dir :: "val \<Rightarrow> string list"
  py_apply :: "opr \<Rightarrow> val list \<Rightarrow> kwargs \<Rightarrow> exn + val"
  py_call :: "val \<Rightarrow> val list \<Rightarrow> kwargs \<Rightarrow> exn + val"
  py_callable :: "val \<Rightarrow> bool"

text \<open>
  The outcome of a method of the engine: a value and the store, an exception and the
  store as the exception left it, or no outcome because the recursion fuel ran out.
\<close>

datatype 'a res = Ok 'a heap | Raise exn heap | Diverge

definition upd_node :: "heap \<Rightarrow> nat \<Rightarrow> (node \<Rightarrow> node) \<Rightarrow> heap" where
  "upd_node h n f = h\<lparr>nodes := (nodes h)[n := f (nodes h ! n)]\<rparr>"

definition lookup_default :: "'v \<Rightarrow> ('k \<times> 'v) list \<Rightarrow> 'k \<Rightarrow> 'v" where
  "lookup_default d al k = (case map_of al k of None \<Rightarrow> d | Some v \<Rightarrow> v)"

text \<open>\<^verbatim>\<open>getattr(p.owner, p.name)\<close>: the current value of a reactive parameter.\<close>

definition param_value :: "heap \<Rightarrow> param \<Rightarrow> val" where
  "param_value h p =
     (case fst p of
        Wrapper w \<Rightarrow> (if snd p = ''object'' \<and> w < length (wrappers h) then wrappers h ! w else VNone)
      | _ \<Rightarrow> lookup_default VNone (pvals h) p)"

text \<open>\<^verbatim>\<open>eval_function\<close> of \<^verbatim>\<open>panel.util\<close>: the producer applied to the current values
  of its dependencies.  A user function is opaque; the store holds its current result.
  The function bound for a node evaluates that node; \<open>ev\<close> is \<^verbatim>\<open>eval\<close>, defined
  below, with the fuel of the caller.\<close>

definition user_function :: "heap \<Rightarrow> string \<Rightarrow> val" where
  "user_function h name = lookup_default VNone (funs h) name"

definition eval_function :: "(heap \<Rightarrow> nat \<Rightarrow> val res) \<Rightarrow> heap \<Rightarrow> producer \<Rightarrow> val res" where
  "eval_function ev h f =
     (case f of Bind p \<Rightarrow> Ok (param_value h p) h
              | UserFn name deps \<Rightarrow> Ok (user_function h name) h
              | NodeFn m deps \<Rightarrow> ev h m)"

text \<open>The setter and the getter of the property \<^verbatim>\<open>_obj\<close>.\<close>

definition set_obj :: "heap \<Rightarrow> nat \<Rightarrow> val \<Rightarrow> heap" where
  "set_obj h n v =
     (case n_shared_obj (nodes h ! n) of
        None \<Rightarrow> upd_node (h\<lparr>cells := cells h @ [v]\<rparr>) n (\<lambda>nd. nd\<lparr>n_shared_obj := Some (length (cells h))\<rparr>)
      | Some c \<Rightarrow> h\<lparr>cells := (cells h)[c := v]\<rparr>)"

definition get_obj :: "(heap \<Rightarrow> nat \<Rightarrow> val res) \<Rightarrow> heap \<Rightarrow> nat \<Rightarrow> val res" where
  "get_obj ev h n =
     (case n_shared_obj (nodes h ! n) of
        Some c \<Rightarrow> Ok (cells h ! c) h
      | None \<Rightarrow>
          (case eval_function ev h (n_fn (nodes h ! n)) of
             Diverge \<Rightarrow> Diverge
           | Raise e h1 \<Rightarrow> Raise e h1
           | Ok v h1 \<Rightarrow>
               (let h2 = set_obj h1 n v
                in Ok (cells h2 ! the (n_shared_obj (nodes h2 ! n))) h2)))"

text \<open>\<^verbatim>\<open>transform_dependency\<close> of \<^verbatim>\<open>panel.depends\<close> on an operand that is not a node: a
  widget stands for its \<^verbatim>\<open>value\<close> parameter.\<close>

definition transform_dependency :: "val \<Rightarrow> val" where
  "transform_dependency a = (case a of VWidget w \<Rightarrow> VParam (Widget w) ''value'' | _ \<Rightarrow> a)"

text \<open>The body of the argument loops of \<^verbatim>\<open>_eval_operation\<close> for an operand that is
  not a node.\<close>

definition resolve_plain :: "heap \<Rightarrow> val \<Rightarrow> val" where
  "resolve_plain h a =
     (case transform_dependency a of
        VFun f deps \<Rightarrow> user_function h f
      | VParam ow nm \<Rightarrow> param_value h (ow, nm)
      | b \<Rightarrow> b)"

text \<open>\<^verbatim>\<open>isinstance(arg, interactive)\<close>\<close>

definition node_of :: "val \<Rightarrow> nat option" where
  "node_of a = (case a of VNode m \<Rightarrow> Some m | _ \<Rightarrow> None)"

definition truthy_method :: "string option \<Rightarrow> bool" where
  "truthy_method m = (case m of None \<Rightarrow> False | Some s \<Rightarrow> s \<noteq> [])"

definition log_call :: "heap \<Rightarrow> fnref \<Rightarrow> val list \<Rightarrow> kwargs \<Rightarrow> heap" where
  "log_call h f as kw = h\<lparr>log := log h @ [\<lparr>i_fn = f, i_args = as, i_kwargs = kw\<rparr>]\<rparr>"

definition of_sum :: "heap \<Rightarrow> exn + val \<Rightarrow> val res" where
  "of_sum h r = (case r of Inl e \<Rightarrow> Raise e h | Inr v \<Rightarrow> Ok v h)"

text \<open>The last part of \<^verbatim>\<open>_eval_operation\<close>: the call itself, on resolved arguments.\<close>

definition apply_operation ::
  "pyenv \<Rightarrow> heap \<Rightarrow> val \<Rightarrow> operation \<Rightarrow> val list \<Rightarrow> kwargs \<Rightarrow> val res" where
  "apply_operation E h obj op ras rkw =
     (case op_fn op of
        Method name \<Rightarrow>
          (case py_getattr E obj name of
             None \<Rightarrow> Raise AttributeError h
           | Some m \<Rightarrow> of_sum (log_call h (Method name) (obj # ras) rkw) (py_call E m ras rkw))
      | Fn f \<Rightarrow>
          (if op_reverse op then
             (case ras of
                [] \<Rightarrow> Raise IndexError h
              | a # rest \<Rightarrow> of_sum (log_call h (Fn f) (a # obj # rest) rkw)
                                  (py_apply E f (a # obj # rest) rkw))
           else of_sum (log_call h (Fn f) (obj # ras) rkw) (py_apply E f (obj # ras) rkw)))"

text \<open>The tail of \<^verbatim>\<open>eval\<close>, after the operation: store the value, clear the dirty
  flag, read a pending accessor off the value (keeping the value where it has no such
  attribute), and copy the docstring of a callable result, which looks
  \<^verbatim>\<open>self.__call__\<close> up through \<^verbatim>\<open>__getattribute__\<close> and so reads the accessor once
  more, this time without a default.\<close>

definition finish_eval :: "pyenv \<Rightarrow> heap \<Rightarrow> nat \<Rightarrow> val \<Rightarrow> val res" where
  "finish_eval E h n obj =
     (let h' = upd_node h n (\<lambda>nd. nd\<lparr>n_current := obj, n_dirty := False\<rparr>);
          m = n_method (nodes h' ! n)
      in if truthy_method m then
           (case py_getattr E obj (the m) of
              None \<Rightarrow> if py_callable E obj then Raise AttributeError h' else Ok obj h'
            | Some a \<Rightarrow> Ok a h')
         else Ok obj h')"

section \<open>Evaluation\<close>

text \<open>
  \<^verbatim>\<open>eval\<close> and the argument loops of \<^verbatim>\<open>_eval_operation\<close> call each other: a node
  evaluates its parent and every operand that is a node.  The recursion follows
  references in the store, so it carries fuel; running out of fuel is \<open>Diverge\<close>.
\<close>

fun eval :: "pyenv \<Rightarrow> nat \<Rightarrow> heap \<Rightarrow> nat \<Rightarrow> val res"
and resolve_args :: "pyenv \<Rightarrow> nat \<Rightarrow> heap \<Rightarrow> val list \<Rightarrow> (val list) res"
where
  "eval E 0 h n = Diverge"
| "eval E (Suc k) h n =
     (if \<not> n_dirty (nodes h ! n) then Ok (n_current (nodes h ! n)) h
      else
        (case (case n_prev (nodes h ! n) of
                 None \<Rightarrow> get_obj (eval E k) h n
               | Some p \<Rightarrow> eval E k h p) of
           Diverge \<Rightarrow> Diverge
         | Raise e h1 \<Rightarrow> Raise e h1
         | Ok obj h1 \<Rightarrow>
             (case n_operation (nodes h1 ! n) of
                None \<Rightarrow> finish_eval E h1 n obj
              | Some op \<Rightarrow>
                  (case resolve_args E k h1 (op_args op) of
                     Diverge \<Rightarrow> Diverge
                   | Raise e h2 \<Rightarrow> Raise e h2
                   | Ok ras h2 \<Rightarrow>
                       (case resolve_args E k h2 (map snd (op_kwargs op)) of
                          Diverge \<Rightarrow> Diverge
                        | Raise e h3 \<Rightarrow> Raise e h3
                        | Ok rks h3 \<Rightarrow>
                            (case apply_operation E h3 obj op ras
                                    (zip (map fst (op_kwargs op)) rks) of
                               Diverge \<Rightarrow> Diverge
                             | Raise e h4 \<Rightarrow> Raise e h4
                             | Ok obj' h4 \<Rightarrow> finish_eval E h4 n obj'))))))"
| "resolve_args E k h [] = Ok [] h"
| "resolve_args E k h (a # as) =
     (case (case node_of a of Some m \<Rightarrow> eval E k h m | None \<Rightarrow> Ok (resolve_plain h a) h) of
        Diverge \<Rightarrow> Diverge
      | Raise e h1 \<Rightarrow> Raise e h1
      | Ok v h1 \<Rightarrow>
          (case resolve_args E k h1 as of
             Diverge \<Rightarrow> Diverge
           | Raise e h2 \<Rightarrow> Raise e h2
           | Ok vs h2 \<Rightarrow> Ok (v # vs) h2))"


section \<open>Attribute lookup on a node\<close>

text \<open>
  \<^verbatim>\<open>__getattribute__\<close> runs on every attribute lookup on an initialised node whose
  name is not in \<^verbatim>\<open>no_lookup\<close>, also on the lookups the class itself makes
  (\<^verbatim>\<open>self._clone\<close>, \<^verbatim>\<open>self._depth\<close>, \<^verbatim>\<open>prev._wrapper\<close>, ...): it evaluates a dirty
  node and reads a pending accessor off the cached value, with no default.  For a
  name that starts with an underscore nothing else happens, since \<^verbatim>\<open>extras\<close> holds
  public names only.  \<open>touch\<close> is that part of the hook.
\<close>

definition touch :: "pyenv \<Rightarrow> nat \<Rightarrow> heap \<Rightarrow> nat \<Rightarrow> unit res" where
  "touch E k h n =
     (case (if n_dirty (nodes h ! n) then eval E k h n else Ok VNone h) of
        Diverge \<Rightarrow> Diverge
      | Raise e h1 \<Rightarrow> Raise e h1
      | Ok _ h1 \<Rightarrow>
          (let nd = nodes h1 ! n in
           if truthy_method (n_method nd) then
             (case py_getattr E (n_current nd) (the (n_method nd)) of
                None \<Rightarrow> Raise AttributeError h1
              | Some _ \<Rightarrow> Ok () h1)
           else Ok () h1))"

section \<open>Dependencies and invalidation\<close>

text \<open>\<^verbatim>\<open>_fn_params\<close>: the declared dependencies of the root producer.\<close>

definition fn_params :: "node \<Rightarrow> param list" where
  "fn_params nd =
     (case n_fn nd of Bind p \<Rightarrow> [p] | UserFn name deps \<Rightarrow> deps | NodeFn m deps \<Rightarrow> deps)"

text \<open>\<^verbatim>\<open>for p in qs: if p not in ps: ps.append(p)\<close>\<close>

fun append_new :: "'a list \<Rightarrow> 'a list \<Rightarrow> 'a list" where
  "append_new ps [] = ps"
| "append_new ps (q # qs) = append_new (if q \<in> set ps then ps else ps @ [q]) qs"

text \<open>
  The property \<^verbatim>\<open>_params\<close>.  Reading it off a node is an attribute lookup, so the
  node is touched first; the \<^verbatim>\<open>while\<close> loop over the ancestors reads
  \<^verbatim>\<open>prev._params\<close> of each, and the argument loops read \<^verbatim>\<open>arg._params\<close> of every
  operand that is a node.  A keyword operand named \<^verbatim>\<open>ax\<close> is skipped unless it is a
  node.
\<close>

text \<open>The body of the argument loops of \<^verbatim>\<open>_params\<close> for an operand that is not
  a node; the positional loop runs it with a key that is not \<^verbatim>\<open>ax\<close>.\<close>

definition add_plain_param :: "string \<Rightarrow> val \<Rightarrow> param list \<Rightarrow> param list" where
  "add_plain_param key a ps =
     (case transform_dependency a of
        VParam ow nm \<Rightarrow> (if key = ''ax'' \<or> (ow, nm) \<in> set ps then ps else ps @ [(ow, nm)])
      | _ \<Rightarrow> ps)"

fun params :: "pyenv \<Rightarrow> nat \<Rightarrow> heap \<Rightarrow> nat \<Rightarrow> (param list) res"
and anc_params :: "pyenv \<Rightarrow> nat \<Rightarrow> heap \<Rightarrow> nat option \<Rightarrow> param list \<Rightarrow> (param list) res"
and arg_params :: "pyenv \<Rightarrow> nat \<Rightarrow> heap \<Rightarrow> kwargs \<Rightarrow> param list \<Rightarrow> (param list) res"
where
  "params E 0 h n = Diverge"
| "params E (Suc k) h n =
     (case touch E k h n of
        Diverge \<Rightarrow> Diverge
      | Raise e h1 \<Rightarrow> Raise e h1
      | Ok _ h1 \<Rightarrow>
          (case anc_params E k h1 (n_prev (nodes h1 ! n)) (fn_params (nodes h1 ! n)) of
             Diverge \<Rightarrow> Diverge
           | Raise e h2 \<Rightarrow> Raise e h2
           | Ok ps h2 \<Rightarrow>
               (case n_operation (nodes h2 ! n) of
                  None \<Rightarrow> Ok ps h2
                | Some op \<Rightarrow>
                    (case arg_params E k h2 (map (Pair []) (op_args op)) ps of
                       Diverge \<Rightarrow> Diverge
                     | Raise e h3 \<Rightarrow> Raise e h3
                     | Ok ps' h3 \<Rightarrow> arg_params E k h3 (op_kwargs op) ps'))))"
| "anc_params E k h None ps = Ok ps h"
| "anc_params E 0 h (Some p) ps = Diverge"
| "anc_params E (Suc k) h (Some p) ps =
     (case params E k h p of
        Diverge \<Rightarrow> Diverge
      | Raise e h1 \<Rightarrow> Raise e h1
      | Ok qs h1 \<Rightarrow> anc_params E k h1 (n_prev (nodes h1 ! p)) (append_new ps qs))"
| "arg_params E k h [] ps = Ok ps h"
| "arg_params E k h ((key, a) # as) ps =
     (case node_of a of
        Some m \<Rightarrow>
          (case params E k h m of
             Diverge \<Rightarrow> Diverge
           | Raise e h1 \<Rightarrow> Raise e h1
           | Ok qs h1 \<Rightarrow> arg_params E k h1 as (append_new ps qs))
      | None \<Rightarrow> arg_params E k h as (add_plain_param key a ps))"


text \<open>
  \<^verbatim>\<open>full_groupby(ps, lambda x: id(x.owner))\<close>: one group of parameter names per
  owner.  The library orders the groups by the identity of the owner; the model keeps
  the order of first occurrence, and nothing below depends on the order of groups.
\<close>

fun full_groupby :: "param list \<Rightarrow> (owner \<times> string list) list" where
  "full_groupby [] = []"
| "full_groupby (p # ps) =
     (fst p, snd p # map snd (filter (\<lambda>q. fst q = fst p) ps))
       # full_groupby (filter (\<lambda>q. fst q \<noteq> fst p) ps)"

definition watch :: "heap \<Rightarrow> callback \<Rightarrow> param list \<Rightarrow> heap" where
  "watch h cb ps =
     h\<lparr>watchers := watchers h @
          map (\<lambda>g. \<lparr>w_owner = fst g, w_names = snd g, w_callback = cb\<rparr>) (full_groupby ps)\<rparr>"

text \<open>The two callbacks: \<^verbatim>\<open>_update_obj\<close> and \<^verbatim>\<open>_invalidate_current\<close>.\<close>

definition run_callback :: "(heap \<Rightarrow> nat \<Rightarrow> val res) \<Rightarrow> heap \<Rightarrow> callback \<Rightarrow> unit res" where
  "run_callback ev h cb =
     (case cb of
        UpdateObj n \<Rightarrow>
          (case eval_function ev h (n_fn (nodes h ! n)) of
             Diverge \<Rightarrow> Diverge
           | Raise e h1 \<Rightarrow> Raise e h1
           | Ok v h1 \<Rightarrow> Ok () (set_obj h1 n v))
      | InvalidateCurrent n \<Rightarrow> Ok () (upd_node h n (\<lambda>nd. nd\<lparr>n_dirty := True\<rparr>)))"

definition write_param :: "heap \<Rightarrow> param \<Rightarrow> val \<Rightarrow> heap" where
  "write_param h p v =
     (case fst p of
        Wrapper w \<Rightarrow> (if snd p = ''object'' then h\<lparr>wrappers := (wrappers h)[w := v]\<rparr>
                      else h\<lparr>pvals := (p, v) # pvals h\<rparr>)
      | _ \<Rightarrow> h\<lparr>pvals := (p, v) # pvals h\<rparr>)"

text \<open>
  Assigning a reactive parameter (\<^verbatim>\<open>owner.name = v\<close>): the value is stored and, when
  it differs from the old one, every watcher of that owner and name runs, in the
  order of registration; an exception of a callback ends the assignment.
\<close>

fun run_watchers ::
  "(heap \<Rightarrow> nat \<Rightarrow> val res) \<Rightarrow> heap \<Rightarrow> param \<Rightarrow> watcher list \<Rightarrow> unit res" where
  "run_watchers ev h p [] = Ok () h"
| "run_watchers ev h p (w # ws) =
     (if w_owner w = fst p \<and> snd p \<in> set (w_names w) then
        (case run_callback ev h (w_callback w) of
           Diverge \<Rightarrow> Diverge
         | Raise e h1 \<Rightarrow> Raise e h1
         | Ok _ h1 \<Rightarrow> run_watchers ev h1 p ws)
      else run_watchers ev h p ws)"

definition set_param :: "(heap \<Rightarrow> nat \<Rightarrow> val res) \<Rightarrow> heap \<Rightarrow> param \<Rightarrow> val \<Rightarrow> unit res" where
  "set_param ev h p v =
     (if param_value h p = v then Ok () h
      else run_watchers ev (write_param h p v) p (watchers h))"

text \<open>
  \<^verbatim>\<open>_setup_invalidations\<close>.  Looking the method up on the fresh node (whose
  \<^verbatim>\<open>_init\<close> and \<^verbatim>\<open>_dirty\<close> are already set) runs the attribute hook, so the node is
  evaluated here, inside its constructor.
\<close>

definition setup_invalidations :: "pyenv \<Rightarrow> nat \<Rightarrow> heap \<Rightarrow> nat \<Rightarrow> unit res" where
  "setup_invalidations E k h n =
     (case touch E k h n of
        Diverge \<Rightarrow> Diverge
      | Raise e h1 \<Rightarrow> Raise e h1
      | Ok _ h1 \<Rightarrow>
          (let h2 = (if n_depth (nodes h1 ! n) = 0
                     then watch h1 (UpdateObj n) (fn_params (nodes h1 ! n)) else h1)
           in case params E k h2 n of
                Diverge \<Rightarrow> Diverge
              | Raise e h3 \<Rightarrow> Raise e h3
              | Ok ps h3 \<Rightarrow> Ok () (watch h3 (InvalidateCurrent n) ps)))"

section \<open>Construction and cloning\<close>

text \<open>
  \<^verbatim>\<open>__new__\<close>: the producer, the wrapper and the root value for an origin.  The
  origin goes through \<^verbatim>\<open>transform_dependency\<close> first: a widget becomes its
  \<^verbatim>\<open>value\<close> parameter, and a node becomes the function that
  \<^verbatim>\<open>_interactive_transform\<close> binds for it, which reads \<^verbatim>\<open>_params\<close> off the node
  (written \<open>VFun ''wrapped'' ps\<close> as a value).  With a producer handed in (the
  copying clone does that) it is kept together with the wrapper handed in; a function
  becomes the producer itself; a reactive parameter is bound; anything else is boxed
  in a new \<^verbatim>\<open>Wrapper\<close>.  The result is the producer, the wrapper and the value.
\<close>

definition new_origin ::
  "pyenv \<Rightarrow> nat \<Rightarrow> heap \<Rightarrow> val \<Rightarrow> producer option \<Rightarrow> nat option
     \<Rightarrow> (producer \<times> nat option \<times> val) res" where
  "new_origin E k h obj fn wrapper =
     (case node_of obj of
        Some m \<Rightarrow>
          (case params E k h m of
             Diverge \<Rightarrow> Diverge
           | Raise e h1 \<Rightarrow> Raise e h1
           | Ok ps h1 \<Rightarrow>
               (case fn of
                  Some f \<Rightarrow> Ok (f, wrapper, VFun ''wrapped'' ps) h1
                | None \<Rightarrow> Ok (NodeFn m ps, None, VNone) h1))
      | None \<Rightarrow>
          (case fn of
             Some f \<Rightarrow> Ok (f, wrapper, transform_dependency obj) h
           | None \<Rightarrow>
               (case transform_dependency obj of
                  VFun name deps \<Rightarrow> Ok (UserFn name deps, None, VNone) h
                | VParam ow nm \<Rightarrow> Ok (Bind (ow, nm), None, param_value h (ow, nm)) h
                | v \<Rightarrow> Ok (Bind (Wrapper (length (wrappers h)), ''object''),
                           Some (length (wrappers h)), v)
                          (h\<lparr>wrappers := wrappers h @ [v]\<rparr>))))"

text \<open>
  The constructor: \<^verbatim>\<open>__new__\<close>, then \<^verbatim>\<open>__init__\<close>.  \<open>shared\<close> is the keyword
  \<^verbatim>\<open>_shared_obj\<close> (\<open>None\<close> when it is not passed: a new cell is made unless the
  value is \<^verbatim>\<open>None\<close>).  \<^verbatim>\<open>__init__\<close> gets the origin as the caller passed it: when
  that is a node and no parent is passed, the node is the parent.  \<^verbatim>\<open>__init__\<close>
  ignores \<^verbatim>\<open>_current\<close>: the node starts dirty with an empty cache.  The keyword
  arguments kept in \<^verbatim>\<open>_kwargs\<close> are the caller's; the \<^verbatim>\<open>wrapper\<close> entry that a
  copying clone leaves there is never read again by the class and is not tracked.
  The result is the new node.
\<close>

definition new_node ::
  "pyenv \<Rightarrow> nat \<Rightarrow> heap \<Rightarrow> val \<Rightarrow> operation option \<Rightarrow> nat \<Rightarrow> string option \<Rightarrow> nat option
     \<Rightarrow> nat option \<Rightarrow> producer option \<Rightarrow> nat option \<Rightarrow> kwargs \<Rightarrow> nat res" where
  "new_node E k h obj operation depth method prev shared fn wrapper kw =
     (case new_origin E k h obj fn wrapper of
        Diverge \<Rightarrow> Diverge
      | Raise e h1 \<Rightarrow> Raise e h1
      | Ok fwv h1 \<Rightarrow>
          (let f = fst fwv; w = fst (snd fwv); v = snd (snd fwv);
               (sh, h2) = (case shared of
                             Some c \<Rightarrow> (Some c, h1)
                           | None \<Rightarrow> if v = VNone then (None, h1)
                                     else (Some (length (cells h1)), h1\<lparr>cells := cells h1 @ [v]\<rparr>));
               prev' = (case node_of obj of
                          Some m \<Rightarrow> (case prev of None \<Rightarrow> Some m | Some p \<Rightarrow> Some p)
                        | None \<Rightarrow> prev);
               n = length (nodes h2);
               h3 = h2\<lparr>nodes := nodes h2 @
                      [\<lparr>n_fn = f, n_shared_obj = sh, n_wrapper = w, n_method = method,
                        n_operation = operation, n_depth = depth, n_prev = prev', n_kwargs = kw,
                        n_dirty = True, n_current = VNone\<rparr>]\<rparr>
           in case setup_invalidations E k h3 n of
                Diverge \<Rightarrow> Diverge
              | Raise e h4 \<Rightarrow> Raise e h4
              | Ok _ h4 \<Rightarrow> Ok n h4))"

text \<open>\<^verbatim>\<open>interactive(obj, **kwargs)\<close>: a new chain root.\<close>

definition interactive :: "pyenv \<Rightarrow> nat \<Rightarrow> heap \<Rightarrow> val \<Rightarrow> kwargs \<Rightarrow> nat res" where
  "interactive E k h obj kw = new_node E k h obj None 0 None None None None None kw"


text \<open>\<^verbatim>\<open>dict(old, **new)\<close>\<close>

definition merge_kwargs :: "kwargs \<Rightarrow> kwargs \<Rightarrow> kwargs" where
  "merge_kwargs old new =
     map (\<lambda>kv. (fst kv, lookup_default (snd kv) new (fst kv))) old
       @ filter (\<lambda>kv. fst kv \<notin> fst ` set old) new"

text \<open>
  \<^verbatim>\<open>_clone\<close>.  The lookups of \<^verbatim>\<open>_clone\<close>, \<^verbatim>\<open>_depth\<close>, \<^verbatim>\<open>_kwargs\<close>, \<^verbatim>\<open>_current\<close> and
  \<^verbatim>\<open>_wrapper\<close> on the node run the attribute hook; after the first one the node is
  clean, so one \<open>touch\<close> stands for all of them.  The copying clone keeps the parent
  of the node and hands on its accessor, producer and wrapper; the other one chains
  from the node and hands on none of them.  The statement
  \<^verbatim>\<open>print(operation, kwargs['prev']._wrapper)\<close> looks \<^verbatim>\<open>_wrapper\<close> up on the parent
  of the new node, which is another node than \<open>n\<close> in the copying clone.  The root
  cell is handed on as it is (\<^verbatim>\<open>_shared_obj=self._shared_obj\<close>).
\<close>

definition clone ::
  "pyenv \<Rightarrow> nat \<Rightarrow> heap \<Rightarrow> nat \<Rightarrow> operation option \<Rightarrow> bool \<Rightarrow> kwargs \<Rightarrow> nat res" where
  "clone E k h n operation copy kw =
     (case touch E k h n of
        Diverge \<Rightarrow> Diverge
      | Raise e h1 \<Rightarrow> Raise e h1
      | Ok _ h1 \<Rightarrow>
          (let nd = nodes h1 ! n;
               operation' = (case operation of Some op \<Rightarrow> Some op | None \<Rightarrow> n_operation nd);
               depth = n_depth nd + 1;
               kw' = merge_kwargs (n_kwargs nd) kw
           in if copy then
                (case (case n_prev nd of None \<Rightarrow> Ok () h1 | Some p \<Rightarrow> touch E k h1 p) of
                   Diverge \<Rightarrow> Diverge
                 | Raise e h2 \<Rightarrow> Raise e h2
                 | Ok _ h2 \<Rightarrow>
                     (case get_obj (eval E k) h2 n of
                        Diverge \<Rightarrow> Diverge
                      | Raise e h3 \<Rightarrow> Raise e h3
                      | Ok obj h3 \<Rightarrow>
                          new_node E k h3 obj operation' depth
                            (n_method (nodes h3 ! n)) (n_prev (nodes h3 ! n))
                            (n_shared_obj (nodes h3 ! n)) (Some (n_fn (nodes h3 ! n)))
                            (n_wrapper (nodes h3 ! n)) kw'))
              else
                (case get_obj (eval E k) h1 n of
                   Diverge \<Rightarrow> Diverge
                 | Raise e h3 \<Rightarrow> Raise e h3
                 | Ok obj h3 \<Rightarrow>
                     new_node E k h3 obj operation' depth None (Some n)
                       (n_shared_obj (nodes h3 ! n)) None None kw')))"

text \<open>
  \<^verbatim>\<open>_resolve_accessor\<close>.  The recorded arguments are \<^verbatim>\<open>self._method\<close> itself, a
  string, where every other operation records a tuple; the arguments of an operation
  are only ever iterated (\<^verbatim>\<open>for arg in args\<close>, \<^verbatim>\<open>list(op['args'])\<close>), and iterating
  a string gives its characters, one string of length one each.
\<close>

definition accessor_operation :: "string \<Rightarrow> operation" where
  "accessor_operation m =
     \<lparr>op_fn = Fn Getitem, op_args = map (\<lambda>c. VStr [c]) m, op_kwargs = [], op_reverse = False\<rparr>"

definition clear_method :: "nat \<Rightarrow> nat res \<Rightarrow> nat res" where
  "clear_method n r =
     (case r of
        Diverge \<Rightarrow> Diverge
      | Raise e h \<Rightarrow> Raise e (upd_node h n (\<lambda>nd. nd\<lparr>n_method := None\<rparr>))
      | Ok m h \<Rightarrow> Ok m (upd_node h n (\<lambda>nd. nd\<lparr>n_method := None\<rparr>)))"

definition resolve_accessor :: "pyenv \<Rightarrow> nat \<Rightarrow> heap \<Rightarrow> nat \<Rightarrow> nat res" where
  "resolve_accessor E k h n =
     (case touch E k h n of
        Diverge \<Rightarrow> Diverge
      | Raise e h1 \<Rightarrow> Raise e h1
      | Ok _ h1 \<Rightarrow>
          (if \<not> truthy_method (n_method (nodes h1 ! n)) then clone E k h1 n None True []
           else clear_method n
                  (clone E k h1 n (Some (accessor_operation (the (n_method (nodes h1 ! n)))))
                     False [])))"

text \<open>\<^verbatim>\<open>_apply_operator\<close>\<close>

definition apply_operator ::
  "pyenv \<Rightarrow> nat \<Rightarrow> heap \<Rightarrow> nat \<Rightarrow> opr \<Rightarrow> val list \<Rightarrow> bool \<Rightarrow> kwargs \<Rightarrow> nat res" where
  "apply_operator E k h n f args reverse kw =
     (case resolve_accessor E k h n of
        Diverge \<Rightarrow> Diverge
      | Raise e h1 \<Rightarrow> Raise e h1
      | Ok new h1 \<Rightarrow>
          clone E k h1 new
            (Some \<lparr>op_fn = Fn f, op_args = args, op_kwargs = kw, op_reverse = reverse\<rparr>)
            False [])"

text \<open>
  The reflected binary operators, \<^verbatim>\<open>__radd__\<close> to \<^verbatim>\<open>__rxor__\<close>.  Each names a
  function of the module \<^verbatim>\<open>operator\<close> (or \<^verbatim>\<open>divmod\<close>) and all but two pass
  \<^verbatim>\<open>reverse=True\<close>.  The module has no \<^verbatim>\<open>div\<close>, \<^verbatim>\<open>rlshift\<close> or \<^verbatim>\<open>rrshift\<close>:
  evaluating \<^verbatim>\<open>operator.rlshift\<close> raises \<^verbatim>\<open>AttributeError\<close>, after
  \<^verbatim>\<open>self._apply_operator\<close> has been looked up.
\<close>

datatype reflected =
    Radd | Rand | Rdiv | Rdivmod | Rfloordiv | Rlshift | Rmod | Rmul | Ror | Rpow
  | Rrshift | Rsub | Rtruediv | Rxor

fun reflected_operator :: "reflected \<Rightarrow> (opr \<times> bool) option" where
  "reflected_operator Radd = Some (Add, True)"
| "reflected_operator Rand = Some (And, True)"
| "reflected_operator Rdiv = None"
| "reflected_operator Rdivmod = Some (Divmod, True)"
| "reflected_operator Rfloordiv = Some (Floordiv, True)"
| "reflected_operator Rlshift = None"
| "reflected_operator Rmod = Some (Mod, True)"
| "reflected_operator Rmul = Some (Mul, True)"
| "reflected_operator Ror = Some (Or, True)"
| "reflected_operator Rpow = Some (Pow, True)"
| "reflected_operator Rrshift = None"
| "reflected_operator Rsub = Some (Sub, True)"
| "reflected_operator Rtruediv = Some (Truediv, True)"
| "reflected_operator Rxor = Some (Xor, True)"

definition reflected_op :: "pyenv \<Rightarrow> nat \<Rightarrow> heap \<Rightarrow> nat \<Rightarrow> reflected \<Rightarrow> val \<Rightarrow> nat res" where
  "reflected_op E k h n r other =
     (case touch E k h n of
        Diverge \<Rightarrow> Diverge
      | Raise e h1 \<Rightarrow> Raise e h1
      | Ok _ h1 \<Rightarrow>
          (case reflected_operator r of
             None \<Rightarrow> Raise AttributeError h1
           | Some fr \<Rightarrow> apply_operator E k h1 n (fst fr) [other] (snd fr) []))"

text \<open>The binary operators \<^verbatim>\<open>__add__\<close> to \<^verbatim>\<open>__xor__\<close> and \<^verbatim>\<open>__getitem__\<close>, with the
  function each of them records.\<close>

definition binary_op :: "pyenv \<Rightarrow> nat \<Rightarrow> heap \<Rightarrow> nat \<Rightarrow> opr \<Rightarrow> val \<Rightarrow> nat res" where
  "binary_op E k h n f other = apply_operator E k h n f [other] False []"


section \<open>Attribute access and calls\<close>

text \<open>
  \<^verbatim>\<open>__getattribute__\<close> for a name the caller asks for.  A name in \<^verbatim>\<open>no_lookup\<close> is
  looked up on the node as usual (\<open>Ordinary\<close>: whatever member the node has under
  that name).  Otherwise the node is evaluated if dirty and a pending accessor is read
  off the value; a public member of the exposed value that is not a member of the node
  makes a new node with that name as its pending accessor.
\<close>

datatype member = Accessor nat | Ordinary string

definition no_lookup :: "string list" where
  "no_lookup = [''eval'', ''_dirty'', ''_prev'', ''_operation'', ''_obj'', ''_shared_obj'',
                ''_method'', ''_eval_operation'', ''_display_opts'', ''_fn'']"

text \<open>The public names in \<^verbatim>\<open>super().__dir__()\<close>: the public methods of the class.\<close>

definition own_public :: "string list" where
  "own_public = [''eval'', ''set'', ''layout'', ''output'', ''panel'', ''widgets'']"

definition is_public :: "string \<Rightarrow> bool" where
  "is_public d = (case d of [] \<Rightarrow> True | c # _ \<Rightarrow> c \<noteq> CHR ''_'')"

definition getattribute :: "pyenv \<Rightarrow> nat \<Rightarrow> heap \<Rightarrow> nat \<Rightarrow> string \<Rightarrow> member res" where
  "getattribute E k h n name =
     (if name \<in> set no_lookup then Ok (Ordinary name) h
      else
        (case (if n_dirty (nodes h ! n) then eval E k h n else Ok VNone h) of
           Diverge \<Rightarrow> Diverge
         | Raise e h1 \<Rightarrow> Raise e h1
         | Ok _ h1 \<Rightarrow>
             (let nd = nodes h1 ! n in
              case (if truthy_method (n_method nd)
                    then py_getattr E (n_current nd) (the (n_method nd))
                    else Some (n_current nd)) of
                None \<Rightarrow> Raise AttributeError h1
              | Some current \<Rightarrow>
                  (if name \<in> set (filter is_public (py_dir E current)) \<and> name \<notin> set own_public
                   then
                     (case resolve_accessor E k h1 n of
                        Diverge \<Rightarrow> Diverge
                      | Raise e h2 \<Rightarrow> Raise e h2
                      | Ok new h2 \<Rightarrow>
                          Ok (Accessor new) (upd_node h2 new (\<lambda>nd. nd\<lparr>n_method := Some name\<rparr>)))
                   else Ok (Ordinary name) h1))))"

text \<open>
  \<^verbatim>\<open>__call__\<close>.  Without a pending accessor the call is \<^verbatim>\<open>self._clone(*args, **kwargs)\<close>
  on a node of depth 0 and \<^verbatim>\<open>AttributeError\<close> on any other; \<^verbatim>\<open>self._depth\<close> is
  looked up through the hook.  Positional arguments of that call would bind the
  parameters \<^verbatim>\<open>operation\<close> and \<^verbatim>\<open>copy\<close> of \<^verbatim>\<open>_clone\<close>; the accessor that the comment
  in the source names (\<^verbatim>\<open>df.interactive(...)\<close>) passes keywords only, and the model
  covers that call: with positional arguments the outcome is marked as not modelled.
  With a pending accessor the node is copied, the copy is cloned with the method call
  as its operation and the accessor of the copy is cleared, whatever happens.
\<close>

definition call :: "pyenv \<Rightarrow> nat \<Rightarrow> heap \<Rightarrow> nat \<Rightarrow> val list \<Rightarrow> kwargs \<Rightarrow> nat res" where
  "call E k h n args kw =
     (case n_method (nodes h ! n) of
        None \<Rightarrow>
          (case touch E k h n of
             Diverge \<Rightarrow> Diverge
           | Raise e h1 \<Rightarrow> Raise e h1
           | Ok _ h1 \<Rightarrow>
               (if n_depth (nodes h1 ! n) = 0 then
                  (if args = [] then clone E k h1 n None False kw
                   else Raise (OtherError ''positional arguments: not modelled'') h1)
                else Raise AttributeError h1))
      | Some m \<Rightarrow>
          (case clone E k h n None True [] of
             Diverge \<Rightarrow> Diverge
           | Raise e h1 \<Rightarrow> Raise e h1
           | Ok new h1 \<Rightarrow>
               clear_method new
                 (clone E k h1 new
                    (Some \<lparr>op_fn = Method (the (n_method (nodes h1 ! new))), op_args = args,
                           op_kwargs = kw, op_reverse = False\<rparr>)
                    False [])))"

section \<open>Overriding the root\<close>

text \<open>
  \<^verbatim>\<open>set\<close>: the loop from the node to the end of its chain.  At the end of the chain
  \<^verbatim>\<open>prev._wrapper\<close> is looked up through the hook, on a node that has just been marked
  dirty.  Assigning \<^verbatim>\<open>prev._wrapper.object\<close> runs the watchers of the wrapper.
\<close>

fun set_walk :: "pyenv \<Rightarrow> nat \<Rightarrow> heap \<Rightarrow> nat \<Rightarrow> val \<Rightarrow> unit res" where
  "set_walk E 0 h p v = Diverge"
| "set_walk E (Suc k) h p v =
     (let h1 = upd_node h p (\<lambda>nd. nd\<lparr>n_dirty := True\<rparr>) in
      case n_prev (nodes h1 ! p) of
        Some q \<Rightarrow> set_walk E k h1 q v
      | None \<Rightarrow>
          (case touch E k h1 p of
             Diverge \<Rightarrow> Diverge
           | Raise e h2 \<Rightarrow> Raise e h2
           | Ok _ h2 \<Rightarrow>
               (case n_wrapper (nodes h2 ! p) of
                  None \<Rightarrow> Raise ValueError h2
                | Some w \<Rightarrow> set_param (eval E k) h2 (Wrapper w, ''object'') v)))"

definition set_root :: "pyenv \<Rightarrow> nat \<Rightarrow> heap \<Rightarrow> nat \<Rightarrow> val \<Rightarrow> nat res" where
  "set_root E k h n v =
     (case set_walk E k h n v of
        Diverge \<Rightarrow> Diverge
      | Raise e h1 \<Rightarrow> Raise e h1
      | Ok _ h1 \<Rightarrow> Ok n h1)"

text \<open>What a caller writes, \<^verbatim>\<open>node.set(v)\<close>: the lookup of \<^verbatim>\<open>set\<close> on the node runs the
  hook, then the method runs.\<close>

definition set_call :: "pyenv \<Rightarrow> nat \<Rightarrow> heap \<Rightarrow> nat \<Rightarrow> val \<Rightarrow> nat res" where
  "set_call E k h n v =
     (case touch E k h n of
        Diverge \<Rightarrow> Diverge
      | Raise e h1 \<Rightarrow> Raise e h1
      | Ok _ h1 \<Rightarrow> set_root E k h1 n v)"


section \<open>Widget discovery\<close>

text \<open>
  \<^verbatim>\<open>_flatten\<close>: lists, tuples and dicts are flattened; iterating a dict gives its
  keys, so the values of a dict nested in the arguments are dropped.
\<close>

fun flatten :: "val list \<Rightarrow> val list" where
  "flatten [] = []"
| "flatten (VList xs # line) = flatten xs @ flatten line"
| "flatten (VTuple xs # line) = flatten xs @ flatten line"
| "flatten (VDict kvs # line) = flatten (map fst kvs) @ flatten line"
| "flatten (x # line) = x # flatten line"


text \<open>
  The loop of \<^verbatim>\<open>_find_widgets\<close> over the flattened arguments, \<open>ws\<close> being the list
  \<^verbatim>\<open>widgets\<close> built so far: a widget, the widget that owns a reactive parameter, and
  for a slice the widgets that \<^verbatim>\<open>_find_widgets\<close> finds in its three components.
  (The branch for \<^verbatim>\<open>ipywidgets\<close> runs only when that package is loaded.)
\<close>

definition weight :: "val list \<Rightarrow> nat" where
  "weight line = sum_list (map (\<lambda>x. 3 * size x + 1) line)"

lemma weight_flatten: "weight (flatten line) \<le> weight line"
proof (induction line rule: flatten.induct)
  case (4 kvs line)
  have "weight (map fst kvs) \<le> 3 * size_list (size_prod size size) kvs"
    by (induction kvs) (auto simp: weight_def)
  with 4 show ?case by (simp add: weight_def)
next
  case (2 xs line)
  have "weight xs \<le> 3 * size_list size xs"
    by (induction xs) (auto simp: weight_def)
  with 2 show ?case by (simp add: weight_def)
next
  case (3 xs line)
  have "weight xs \<le> 3 * size_list size xs"
    by (induction xs) (auto simp: weight_def)
  with 3 show ?case by (simp add: weight_def)
qed (simp_all add: weight_def)

function (sequential) scan_widgets :: "val list \<Rightarrow> nat list \<Rightarrow> nat list" where
  "scan_widgets [] ws = ws"
| "scan_widgets (VWidget w # line) ws = scan_widgets line (if w \<in> set ws then ws else ws @ [w])"
| "scan_widgets (VParam (Widget w) nm # line) ws =
     scan_widgets line (if w \<in> set ws then ws else ws @ [w])"
| "scan_widgets (VSlice a b c # line) ws =
     scan_widgets line (append_new ws (scan_widgets (flatten [a, b, c]) []))"
| "scan_widgets (x # line) ws = scan_widgets line ws"
  by pat_completeness auto
termination
proof (relation "measure (\<lambda>(line, ws). weight line)")
  show "wf (measure (\<lambda>(line, ws). weight line))" by simp
next
  fix a b c :: val and line :: "val list" and ws :: "nat list"
  have "weight (flatten [a, b, c]) \<le> weight [a, b, c]" by (rule weight_flatten)
  then show "((flatten [a, b, c], []), (VSlice a b c # line, ws)) \<in> measure (\<lambda>(line, ws). weight line)"
    by (simp add: weight_def)
qed (simp_all add: weight_def)

definition find_widgets :: "operation \<Rightarrow> nat list" where
  "find_widgets op = scan_widgets (flatten (op_args op @ map snd (op_kwargs op))) []"

text \<open>The loop of \<^verbatim>\<open>widgets\<close> over the node and its ancestors.\<close>

fun walk_widgets :: "nat \<Rightarrow> heap \<Rightarrow> nat option \<Rightarrow> nat list \<Rightarrow> (nat list) option" where
  "walk_widgets k h None ws = Some ws"
| "walk_widgets 0 h (Some p) ws = None"
| "walk_widgets (Suc k) h (Some p) ws =
     walk_widgets k h (n_prev (nodes h ! p))
       (case n_operation (nodes h ! p) of
          None \<Rightarrow> ws
        | Some op \<Rightarrow> append_new ws (find_widgets op))"

text \<open>
  \<^verbatim>\<open>widgets\<close>: first the widgets that own a parameter of the node's own producer
  (\<^verbatim>\<open>self._fn_params\<close>, looked up through the hook), then those of the operations from
  the node back to the end of its chain.  The result is the list handed to \<^verbatim>\<open>Column\<close>.
\<close>

definition fn_widgets :: "param list \<Rightarrow> nat list" where
  "fn_widgets ps =
     foldl (\<lambda>ws p. case fst p of Widget w \<Rightarrow> (if w \<in> set ws then ws else ws @ [w]) | _ \<Rightarrow> ws)
       [] ps"

definition widgets :: "pyenv \<Rightarrow> nat \<Rightarrow> heap \<Rightarrow> nat \<Rightarrow> (nat list) res" where
  "widgets E k h n =
     (case touch E k h n of
        Diverge \<Rightarrow> Diverge
      | Raise e h1 \<Rightarrow> Raise e h1
      | Ok _ h1 \<Rightarrow>
          (case walk_widgets k h1 (Some n) (fn_widgets (fn_params (nodes h1 ! n))) of
             None \<Rightarrow> Diverge
           | Some ws \<Rightarrow> Ok ws h1))"

section \<open>An environment of integers and records\<close>

text \<open>
  A small instance of the object semantics, for running the engine: integers with
  addition, multiplication, shifts and comparison; lists repeated by an integer; dicts with string keys whose
  entries can be read as items and as attributes (as the columns of a data frame can);
  \<^verbatim>\<open>getitem\<close> takes exactly one key, as \<^verbatim>\<open>operator.getitem(a, b)\<close> does; a list has
  the method \<^verbatim>\<open>head(n)\<close>, whose bound method is the tuple of its name and the list.
\<close>

definition std_getattr :: "val \<Rightarrow> string \<Rightarrow> val option" where
  "std_getattr v name =
     (case v of
        VDict kvs \<Rightarrow> map_of kvs (VStr name)
      | VList xs \<Rightarrow> (if name = ''head'' then Some (VTuple [VStr ''head'', VList xs]) else None)
      | _ \<Rightarrow> None)"

definition std_keys :: "(val \<times> val) list \<Rightarrow> string list" where
  "std_keys kvs = concat (map (\<lambda>kv. case fst kv of VStr s \<Rightarrow> [s] | _ \<Rightarrow> []) kvs)"

definition std_dir :: "val \<Rightarrow> string list" where
  "std_dir v = (case v of VDict kvs \<Rightarrow> std_keys kvs | VList xs \<Rightarrow> [''head''] | _ \<Rightarrow> [])"

definition int_of :: "val \<Rightarrow> int option" where
  "int_of v = (case v of VInt a \<Rightarrow> Some a | _ \<Rightarrow> None)"

definition list_of :: "val \<Rightarrow> val list option" where
  "list_of v = (case v of VList xs \<Rightarrow> Some xs | _ \<Rightarrow> None)"

definition std_arith :: "opr \<Rightarrow> int \<Rightarrow> int \<Rightarrow> exn + val" where
  "std_arith f a b =
     (if f = Add then Inr (VInt (a + b))
      else if f = Sub then Inr (VInt (a - b))
      else if f = Mul then Inr (VInt (a * b))
      else if f = Gt then Inr (VBool (a > b))
      else if f = Lshift then (if b < 0 then Inl ValueError else Inr (VInt (a * 2 ^ nat b)))
      else Inl TypeError)"

definition std_getitem :: "val \<Rightarrow> val \<Rightarrow> exn + val" where
  "std_getitem x key =
     (case x of
        VDict kvs \<Rightarrow>
          (case map_of kvs key of None \<Rightarrow> Inl (OtherError ''KeyError'') | Some v \<Rightarrow> Inr v)
      | _ \<Rightarrow> Inl TypeError)"

definition std_apply :: "opr \<Rightarrow> val list \<Rightarrow> kwargs \<Rightarrow> exn + val" where
  "std_apply f args kw =
     (if kw \<noteq> [] \<or> length args \<noteq> 2 then Inl TypeError
      else if f = Getitem then std_getitem (args ! 0) (args ! 1)
      else if f = Mul \<and> list_of (args ! 0) \<noteq> None \<and> int_of (args ! 1) \<noteq> None
        then Inr (VList (concat (replicate (nat (the (int_of (args ! 1)))) (the (list_of (args ! 0))))))
      else
        (case int_of (args ! 0) of
           None \<Rightarrow> Inl TypeError
         | Some a \<Rightarrow>
             (case int_of (args ! 1) of
                None \<Rightarrow> Inl TypeError
              | Some b \<Rightarrow> std_arith f a b)))"

definition bound_head :: "val \<Rightarrow> val list option" where
  "bound_head m =
     (case m of
        VTuple ys \<Rightarrow>
          (if length ys = 2 \<and> ys ! 0 = VStr ''head''
           then (case ys ! 1 of VList xs \<Rightarrow> Some xs | _ \<Rightarrow> None) else None)
      | _ \<Rightarrow> None)"

definition std_call :: "val \<Rightarrow> val list \<Rightarrow> kwargs \<Rightarrow> exn + val" where
  "std_call m args kw =
     (case bound_head m of
        None \<Rightarrow> Inl TypeError
      | Some xs \<Rightarrow>
          (if kw \<noteq> [] \<or> length args \<noteq> 1 then Inl TypeError
           else (case int_of (args ! 0) of
                   None \<Rightarrow> Inl TypeError
                 | Some n \<Rightarrow> Inr (VList (take (nat n) xs)))))"

definition std_callable :: "val \<Rightarrow> bool" where
  "std_callable v = (bound_head v \<noteq> None)"

definition std_env :: pyenv where
  "std_env = \<lparr>py_getattr = std_getattr, py_dir = std_dir, py_apply = std_apply,
               py_call = std_call, py_callable = std_callable\<rparr>"

definition empty_heap :: heap where
  "empty_heap = \<lparr>nodes = [], cells = [], wrappers = [], pvals = [], funs = [],
                  watchers = [], log = []\<rparr>"

section \<open>Runs of the engine\<close>

text \<open>Projections of an outcome, and the runs that the theorems below evaluate, all in
  the environment \<open>std_env\<close> and from the empty store.\<close>

definition value_of :: "'a res \<Rightarrow> 'a option" where
  "value_of r = (case r of Ok v h \<Rightarrow> Some v | _ \<Rightarrow> None)"

definition raised :: "'a res \<Rightarrow> exn option" where
  "raised r = (case r of Raise e h \<Rightarrow> Some e | _ \<Rightarrow> None)"

definition heap_of :: "'a res \<Rightarrow> heap" where
  "heap_of r = (case r of Ok v h \<Rightarrow> h | Raise e h \<Rightarrow> h | Diverge \<Rightarrow> empty_heap)"

text \<open>\<^verbatim>\<open>expr = interactive({'col': 5, 'A': 7})\<close>, then \<^verbatim>\<open>expr.col > 1\<close> and
  \<^verbatim>\<open>expr.A > 1\<close>; the root is node 0 and each accessor node is node 1.\<close>

definition frame :: val where
  "frame = VDict [(VStr ''col'', VInt 5), (VStr ''A'', VInt 7)]"

definition frame_root :: "nat res" where
  "frame_root = interactive std_env 20 empty_heap frame []"

definition frame_col :: "member res" where
  "frame_col = getattribute std_env 20 (heap_of frame_root) 0 ''col''"

definition frame_col_gt :: "nat res" where
  "frame_col_gt = binary_op std_env 20 (heap_of frame_col) 1 Gt (VInt 1)"

definition frame_A :: "member res" where
  "frame_A = getattribute std_env 20 (heap_of frame_root) 0 ''A''"

definition frame_A_gt :: "nat res" where
  "frame_A_gt = binary_op std_env 20 (heap_of frame_A) 1 Gt (VInt 1)"

text \<open>\<^verbatim>\<open>p = expr.A\<close>, then \<^verbatim>\<open>expr.set({'col': 5, 'A': 8})\<close>, which leaves \<open>p\<close> (node 1)
  dirty, then \<^verbatim>\<open>p.eval()\<close> twice.\<close>

definition frame2 :: val where
  "frame2 = VDict [(VStr ''col'', VInt 5), (VStr ''A'', VInt 8)]"

definition frame_A_set :: "nat res" where
  "frame_A_set = set_call std_env 20 (heap_of frame_A) 0 frame2"

definition frame_A_eval1 :: "val res" where
  "frame_A_eval1 = eval std_env 20 (heap_of frame_A_set) 1"

definition frame_A_eval2 :: "val res" where
  "frame_A_eval2 = eval std_env 20 (heap_of frame_A_eval1) 1"

text \<open>\<^verbatim>\<open>root = interactive(3)\<close> (node 0), \<^verbatim>\<open>chain = root * 2\<close> (node 2, on the copy
  node 1), \<^verbatim>\<open>sibling = root + 1\<close> (node 4, on the copy node 3), then
  \<^verbatim>\<open>root.set(10)\<close>.\<close>

definition const_root :: "nat res" where
  "const_root = interactive std_env 20 empty_heap (VInt 3) []"

definition const_chain :: "nat res" where
  "const_chain = binary_op std_env 20 (heap_of const_root) 0 Mul (VInt 2)"

definition const_sibling :: "nat res" where
  "const_sibling = binary_op std_env 20 (heap_of const_chain) 0 Add (VInt 1)"

definition const_set :: "nat res" where
  "const_set = set_call std_env 20 (heap_of const_sibling) 0 (VInt 10)"

text \<open>\<^verbatim>\<open>root = interactive([1, 2, 3, 4])\<close>, \<^verbatim>\<open>root.head\<close> (node 1), \<^verbatim>\<open>root.head(3)\<close>
  (node 3), \<^verbatim>\<open>root.head(3) * 2\<close> (node 5); \<^verbatim>\<open>eval\<close> is never called.\<close>

definition list_root :: "nat res" where
  "list_root = interactive std_env 20 empty_heap (VList [VInt 1, VInt 2, VInt 3, VInt 4]) []"

definition list_head :: "member res" where
  "list_head = getattribute std_env 20 (heap_of list_root) 0 ''head''"

definition list_head3 :: "nat res" where
  "list_head3 = call std_env 20 (heap_of list_head) 1 [VInt 3] []"

definition list_head3_mul :: "nat res" where
  "list_head3_mul = binary_op std_env 20 (heap_of list_head3) 3 Mul (VInt 2)"

text \<open>A widget 0 whose value is 4, \<^verbatim>\<open>root = interactive(widget)\<close> (node 0) and
  \<^verbatim>\<open>root + 1\<close> (node 2); \<^verbatim>\<open>5 - root\<close> and \<^verbatim>\<open>5 << root\<close>.\<close>

definition widget_heap :: heap where
  "widget_heap = empty_heap\<lparr>pvals := [((Widget 0, ''value''), VInt 4)]\<rparr>"

definition widget_root :: "nat res" where
  "widget_root = interactive std_env 20 widget_heap (VWidget 0) []"

definition widget_add :: "nat res" where
  "widget_add = binary_op std_env 20 (heap_of widget_root) 0 Add (VInt 1)"

definition widget_rsub :: "nat res" where
  "widget_rsub = reflected_op std_env 20 (heap_of widget_root) 0 Rsub (VInt 5)"

definition widget_rlshift :: "nat res" where
  "widget_rlshift = reflected_op std_env 20 (heap_of widget_root) 0 Rlshift (VInt 5)"

definition widget_rrshift :: "nat res" where
  "widget_rrshift = reflected_op std_env 20 (heap_of widget_root) 0 Rrshift (VInt 5)"

text \<open>The chaining clone of the constant root with the operation \<^verbatim>\<open>* 2\<close>, the
  copying clone of that root, and \<^verbatim>\<open>chain.eval()\<close> after \<^verbatim>\<open>root.set(10)\<close>.\<close>

definition times_two :: operation where
  "times_two = \<lparr>op_fn = Fn Mul, op_args = [VInt 2], op_kwargs = [], op_reverse = False\<rparr>"

definition const_clone_mul :: "nat res" where
  "const_clone_mul = clone std_env 20 (heap_of const_root) 0 (Some times_two) False []"


definition const_eval :: "val res" where
  "const_eval = eval std_env 20 (heap_of const_set) 2"

text \<open>\<^verbatim>\<open>r = 5 - root\<close> on the constant root (node 2, on the copy node 1), then
  \<^verbatim>\<open>root.set(10)\<close>, which leaves node 2 dirty; the parent of node 2 evaluated in that
  store.\<close>

definition const_rsub :: "nat res" where
  "const_rsub = reflected_op std_env 20 (heap_of const_root) 0 Rsub (VInt 5)"

definition const_rsub_set :: "nat res" where
  "const_rsub_set = set_call std_env 20 (heap_of const_rsub) 0 (VInt 10)"

definition const_rsub_parent :: "val res" where
  "const_rsub_parent = eval std_env 19 (heap_of const_rsub_set) 1"



text \<open>The walk of \<^verbatim>\<open>set\<close>: the nodes from a node to the end of its chain along
  \<^verbatim>\<open>_prev\<close>, and the store in which each node of a list has been marked dirty.\<close>

fun path :: "nat \<Rightarrow> heap \<Rightarrow> nat \<Rightarrow> nat list option" where
  "path 0 h n = None"
| "path (Suc k) h n =
     (case n_prev (nodes h ! n) of
        None \<Rightarrow> Some [n]
      | Some q \<Rightarrow> map_option ((#) n) (path k h q))"

definition mark_dirty :: "heap \<Rightarrow> nat list \<Rightarrow> heap" where
  "mark_dirty h ps = foldl (\<lambda>h' p. upd_node h' p (\<lambda>nd. nd\<lparr>n_dirty := True\<rparr>)) h ps"




text \<open>\<^verbatim>\<open>root.set(None)\<close> on the constant root of the chain \<^verbatim>\<open>root * 2\<close>, and the parent of
  the chain node evaluated in that store.\<close>

definition const_none_set :: "nat res" where
  "const_none_set = set_call std_env 20 (heap_of const_chain) 0 VNone"

definition const_none_parent :: "val res" where
  "const_none_parent = eval std_env 19 (heap_of const_none_set) 1"

definition const_none_eval :: "val res" where
  "const_none_eval = eval std_env 20 (heap_of const_none_set) 2"

section \<open>How evaluation changes the store\<close>

text \<open>
  \<open>static\<close> is a node without its cache, its dirty flag and its root cell.
  \<open>evolves h h'\<close> holds when \<open>h'\<close> has the nodes of \<open>h\<close> with the same static
  part, the log of invocations has only been extended, every root cell reference
  that was set is the same, and every node that was clean is still clean with the same
  cached value.
\<close>

definition static :: "node \<Rightarrow> node" where
  "static nd = nd\<lparr>n_shared_obj := None, n_dirty := False, n_current := VNone\<rparr>"

definition evolves :: "heap \<Rightarrow> heap \<Rightarrow> bool" where
  "evolves h h' \<longleftrightarrow>
     length (nodes h') = length (nodes h) \<and>
     (\<exists>l. log h' = log h @ l) \<and>
     (\<forall>i < length (nodes h).
        static (nodes h' ! i) = static (nodes h ! i) \<and>
        (n_shared_obj (nodes h ! i) \<noteq> None \<longrightarrow>
           n_shared_obj (nodes h' ! i) = n_shared_obj (nodes h ! i)) \<and>
        (\<not> n_dirty (nodes h ! i) \<longrightarrow>
           \<not> n_dirty (nodes h' ! i) \<and> n_current (nodes h' ! i) = n_current (nodes h ! i)))"

definition res_evolves :: "heap \<Rightarrow> 'a res \<Rightarrow> bool" where
  "res_evolves h r = (case r of Ok _ h' \<Rightarrow> evolves h h' | Raise _ h' \<Rightarrow> evolves h h' | Diverge \<Rightarrow> True)"

text \<open>The value that a node shows for its cache: the pending accessor read off it, with
  the cached value itself as the default (\<^verbatim>\<open>getattr(obj, self._method, obj)\<close>).\<close>

definition exposed :: "pyenv \<Rightarrow> node \<Rightarrow> val" where
  "exposed E nd =
     (if truthy_method (n_method nd)
      then (case py_getattr E (n_current nd) (the (n_method nd)) of
              None \<Rightarrow> n_current nd | Some a \<Rightarrow> a)
      else n_current nd)"

text \<open>\<open>grows h h'\<close> is \<open>evolves\<close> for a store that may have gained nodes.\<close>

definition grows :: "heap \<Rightarrow> heap \<Rightarrow> bool" where
  "grows h h' \<longleftrightarrow>
     length (nodes h) \<le> length (nodes h') \<and>
     (\<exists>l. log h' = log h @ l) \<and>
     (\<forall>i < length (nodes h).
        static (nodes h' ! i) = static (nodes h ! i) \<and>
        (n_shared_obj (nodes h ! i) \<noteq> None \<longrightarrow>
           n_shared_obj (nodes h' ! i) = n_shared_obj (nodes h ! i)) \<and>
        (\<not> n_dirty (nodes h ! i) \<longrightarrow>
           \<not> n_dirty (nodes h' ! i) \<and> n_current (nodes h' ! i) = n_current (nodes h ! i)))"

text \<open>
  The nodes a node refers to: its parent, the node its producer evaluates, and the
  operands of its operation that are nodes.  \<open>refs_below h\<close> holds when every node
  of the store refers to older nodes only, as every node the class builds does.
  \<open>keeps b h h'\<close> holds when the nodes from \<open>b\<close> on have in \<open>h'\<close> the dirty flag and
  the cache they have in \<open>h\<close>.
\<close>

definition node_refs :: "node \<Rightarrow> nat list" where
  "node_refs nd =
     (case n_prev nd of None \<Rightarrow> [] | Some p \<Rightarrow> [p]) @
     (case n_fn nd of NodeFn m ps \<Rightarrow> [m] | _ \<Rightarrow> []) @
     (case n_operation nd of
        None \<Rightarrow> []
      | Some op \<Rightarrow>
          concat (map (\<lambda>a. case node_of a of None \<Rightarrow> [] | Some m \<Rightarrow> [m])
                      (op_args op @ map snd (op_kwargs op))))"

definition refs_below :: "heap \<Rightarrow> bool" where
  "refs_below h =
     list_all (\<lambda>i. list_all (\<lambda>m. m < i) (node_refs (nodes h ! i))) [0..<length (nodes h)]"

definition keeps :: "nat \<Rightarrow> heap \<Rightarrow> heap \<Rightarrow> bool" where
  "keeps b h h' \<longleftrightarrow>
     (\<forall>i\<ge>b. n_dirty (nodes h' ! i) = n_dirty (nodes h ! i) \<and>
             n_current (nodes h' ! i) = n_current (nodes h ! i))"

definition res_keeps :: "nat \<Rightarrow> heap \<Rightarrow> 'a res \<Rightarrow> bool" where
  "res_keeps b h r =
     (case r of Ok _ h' \<Rightarrow> keeps b h h' | Raise _ h' \<Rightarrow> keeps b h h' | Diverge \<Rightarrow> True)"

lemma log_upd_node [simp]: "log (upd_node h n f) = log h"
  by (simp add: upd_node_def)

lemma log_watch [simp]: "log (watch h cb ps) = log h"
  by (simp add: watch_def)

lemma evolves_refl: "evolves h h"
  by (simp add: evolves_def)

lemma evolves_trans:
  assumes "evolves h1 h2" and "evolves h2 h3"
  shows "evolves h1 h3"
proof -
  obtain l1 l2 where "log h2 = log h1 @ l1" and "log h3 = log h2 @ l2"
    using assms by (auto simp: evolves_def)
  then have "log h3 = log h1 @ (l1 @ l2)" by simp
  then have "\<exists>l. log h3 = log h1 @ l" ..
  then show ?thesis using assms unfolding evolves_def by simp
qed

lemma res_evolves_simps [simp]:
  "res_evolves h (Ok v h') = evolves h h'"
  "res_evolves h (Raise e h') = evolves h h'"
  "res_evolves h Diverge = True"
  by (simp_all add: res_evolves_def)

lemma static_upd [simp]:
  "static (nd\<lparr>n_current := c\<rparr>) = static nd"
  "static (nd\<lparr>n_shared_obj := s\<rparr>) = static nd"
  "static (nd\<lparr>n_dirty := d\<rparr>) = static nd"
  by (simp_all add: static_def)

lemma evolves_log_call: "evolves h h' \<Longrightarrow> evolves h (log_call h' f as kw)"
  by (auto simp: evolves_def log_call_def)

lemma evolves_cells [simp]: "evolves h (h'\<lparr>cells := l\<rparr>) = evolves h h'"
  by (simp add: evolves_def)

lemma nth_upd_node:
  "i < length (nodes h) \<Longrightarrow>
   nodes (upd_node h n f) ! i = (if i = n then f (nodes h ! i) else nodes h ! i)"
  by (cases "i = n") (simp_all add: upd_node_def)

lemma length_upd_node [simp]: "length (nodes (upd_node h n f)) = length (nodes h)"
  by (simp add: upd_node_def)

lemma evolves_upd_dirty_node:
  "evolves h h1 \<Longrightarrow> n_dirty (nodes h ! n) \<Longrightarrow>
   evolves h (upd_node h1 n (\<lambda>nd. nd\<lparr>n_current := c, n_dirty := d\<rparr>))"
  unfolding evolves_def
  by (auto simp: nth_upd_node)

lemma finish_eval_evolves:
  "evolves h h1 \<Longrightarrow> n_dirty (nodes h ! n) \<Longrightarrow> res_evolves h (finish_eval E h1 n obj)"
  unfolding finish_eval_def Let_def
  by (auto simp: evolves_upd_dirty_node split: option.splits)

lemma evolves_upd_shared:
  "n_shared_obj (nodes h ! n) = None \<Longrightarrow>
   evolves h (upd_node h n (\<lambda>nd. nd\<lparr>n_shared_obj := s\<rparr>))"
  unfolding evolves_def
  by (auto simp: nth_upd_node)

lemma upd_node_cells: "upd_node (h\<lparr>cells := c\<rparr>) n f = (upd_node h n f)\<lparr>cells := c\<rparr>"
  by (simp add: upd_node_def)

lemma set_obj_evolves: "evolves h (set_obj h n v)"
  unfolding set_obj_def
  by (auto simp: evolves_refl evolves_upd_shared upd_node_cells split: option.splits)

lemma eval_function_evolves:
  assumes ev: "\<And>h m. res_evolves h (ev h m)"
  shows "res_evolves h (eval_function ev h f)"
  using ev by (cases f) (simp_all add: eval_function_def evolves_refl)

lemma apply_operation_evolves:
  "evolves h h1 \<Longrightarrow> res_evolves h (apply_operation E h1 obj op ras rkw)"
  unfolding apply_operation_def of_sum_def
  by (auto simp: evolves_log_call split: fnref.splits option.splits list.splits sum.splits)



lemma res_evolves_trans:
  "evolves h h1 \<Longrightarrow> res_evolves h1 r \<Longrightarrow> res_evolves h r"
  by (cases r) (auto intro: evolves_trans)

lemma get_obj_evolves:
  assumes ev: "\<And>h m. res_evolves h (ev h m)"
  shows "res_evolves h (get_obj ev h n)"
proof (cases "n_shared_obj (nodes h ! n)")
  case (Some c)
  then show ?thesis by (simp add: get_obj_def evolves_refl)
next
  case None
  have r: "res_evolves h (eval_function ev h (n_fn (nodes h ! n)))"
    using ev by (rule eval_function_evolves)
  show ?thesis
  proof (cases "eval_function ev h (n_fn (nodes h ! n))")
    case (Ok v h1)
    then have "evolves h h1" using r by simp
    then have "evolves h (set_obj h1 n v)" using set_obj_evolves by (rule evolves_trans)
    then show ?thesis using None Ok by (simp add: get_obj_def Let_def)
  next
    case (Raise e h1)
    then show ?thesis using None r by (simp add: get_obj_def)
  next
    case Diverge
    then show ?thesis using None by (simp add: get_obj_def)
  qed
qed

lemma resolve_args_evolves_aux:
  assumes ev: "\<And>h m. res_evolves h (eval E k h m)"
  shows "res_evolves h (resolve_args E k h as)"
proof (induction as arbitrary: h)
  case Nil
  show ?case by (simp add: evolves_refl)
next
  case (Cons a as)
  define r where "r = (case node_of a of Some m \<Rightarrow> eval E k h m | None \<Rightarrow> Ok (resolve_plain h a) h)"
  have r: "res_evolves h r"
    unfolding r_def using ev by (simp add: evolves_refl split: option.splits)
  show ?case
  proof (cases r)
    case (Ok v h1)
    then have g1: "evolves h h1" using r by simp
    have "res_evolves h1 (resolve_args E k h1 as)" by (rule Cons.IH)
    then have "res_evolves h (resolve_args E k h1 as)" using g1 by (rule res_evolves_trans[rotated])
    then show ?thesis using Ok
      by (auto simp: r_def[symmetric] split: res.splits)
  next
    case (Raise e h1)
    then show ?thesis using r by (simp add: r_def[symmetric])
  next
    case Diverge
    then show ?thesis by (simp add: r_def[symmetric])
  qed
qed

lemma eval_evolves: "res_evolves h (eval E k h n)"
proof (induction k arbitrary: h n)
  case 0
  show ?case by simp
next
  case (Suc k)
  have ra: "\<And>h as. res_evolves h (resolve_args E k h as)"
    by (rule resolve_args_evolves_aux) (rule Suc.IH)
  show ?case
  proof (cases "n_dirty (nodes h ! n)")
    case False
    then show ?thesis by (simp add: evolves_refl)
  next
    case dirty: True
    define r0 where "r0 = (case n_prev (nodes h ! n) of
                 None \<Rightarrow> get_obj (eval E k) h n
               | Some p \<Rightarrow> eval E k h p)"
    have r0: "res_evolves h r0"
      unfolding r0_def using Suc.IH get_obj_evolves[of "eval E k", OF Suc.IH]
      by (simp split: option.splits)
    show ?thesis
    proof (cases r0)
      case (Ok obj h1)
      then have g1: "evolves h h1" using r0 by simp
      show ?thesis
      proof (cases "n_operation (nodes h1 ! n)")
        case None
        then show ?thesis using Ok dirty finish_eval_evolves[OF g1 dirty]
          by (simp add: r0_def[symmetric])
      next
        case (Some op)
        have a1: "res_evolves h (resolve_args E k h1 (op_args op))"
          using g1 ra by (rule res_evolves_trans)
        show ?thesis
        proof (cases "resolve_args E k h1 (op_args op)")
          case ok2: (Ok ras h2)
          then have g2: "evolves h h2" using a1 by simp
          have a2: "res_evolves h (resolve_args E k h2 (map snd (op_kwargs op)))"
            using g2 ra by (rule res_evolves_trans)
          show ?thesis
          proof (cases "resolve_args E k h2 (map snd (op_kwargs op))")
            case ok3: (Ok rks h3)
            then have g3: "evolves h h3" using a2 by simp
            have a3: "res_evolves h (apply_operation E h3 obj op ras (zip (map fst (op_kwargs op)) rks))"
              using g3 by (rule apply_operation_evolves)
            show ?thesis
            proof (cases "apply_operation E h3 obj op ras (zip (map fst (op_kwargs op)) rks)")
              case ok4: (Ok obj' h4)
              then have g4: "evolves h h4" using a3 by simp
              show ?thesis using Ok dirty Some ok2 ok3 ok4 finish_eval_evolves[OF g4 dirty]
                by (simp add: r0_def[symmetric])
            next
              case (Raise e h4)
              then show ?thesis using Ok dirty Some ok2 ok3 a3
                by (simp add: r0_def[symmetric])
            next
              case Diverge
              then show ?thesis using Ok dirty Some ok2 ok3
                by (simp add: r0_def[symmetric])
            qed
          next
            case (Raise e h3)
            then show ?thesis using Ok dirty Some ok2 a2
              by (simp add: r0_def[symmetric])
          next
            case Diverge
            then show ?thesis using Ok dirty Some ok2
              by (simp add: r0_def[symmetric])
          qed
        next
          case (Raise e h2)
          then show ?thesis using Ok dirty Some a1
            by (simp add: r0_def[symmetric])
        next
          case Diverge
          then show ?thesis using Ok dirty Some
            by (simp add: r0_def[symmetric])
        qed
      qed
    next
      case (Raise e h1)
      then show ?thesis using r0 dirty by (simp add: r0_def[symmetric])
    next
      case Diverge
      then show ?thesis using dirty by (simp add: r0_def[symmetric])
    qed
  qed
qed

lemma resolve_args_evolves: "res_evolves h (resolve_args E k h as)"
  by (rule resolve_args_evolves_aux) (rule eval_evolves)

lemma eval_Ok_evolves: "eval E k h n = Ok v h' \<Longrightarrow> evolves h h'"
  using eval_evolves[of h E k n] by simp

lemma eval_Raise_evolves: "eval E k h n = Raise e h' \<Longrightarrow> evolves h h'"
  using eval_evolves[of h E k n] by simp

lemma resolve_args_Ok_evolves:
  "resolve_args E k h1 as = Ok ras h2 \<Longrightarrow> evolves h h1 \<Longrightarrow> evolves h h2"
  using resolve_args_evolves[of h1 E k as] by (auto intro: evolves_trans)

lemma resolve_args_Raise_evolves:
  "resolve_args E k h1 as = Raise e h2 \<Longrightarrow> evolves h h1 \<Longrightarrow> evolves h h2"
  using resolve_args_evolves[of h1 E k as] by (auto intro: evolves_trans)

lemma apply_operation_Ok_evolves:
  "apply_operation E h3 obj op ras rkw = Ok v h4 \<Longrightarrow> evolves h h3 \<Longrightarrow> evolves h h4"
  using apply_operation_evolves[of h h3 E obj op ras rkw] by simp

lemma apply_operation_Raise_evolves:
  "apply_operation E h3 obj op ras rkw = Raise e h4 \<Longrightarrow> evolves h h3 \<Longrightarrow> evolves h h4"
  using apply_operation_evolves[of h h3 E obj op ras rkw] by simp

text \<open>A dirty node that evaluates got its result from the tail of \<^verbatim>\<open>eval\<close>.\<close>

lemma get_obj_Ok_evolves: "get_obj (eval E k) h n = Ok v h' \<Longrightarrow> evolves h h'"
  using get_obj_evolves[of "eval E k" h n, OF eval_evolves] by simp

lemma get_obj_Raise_evolves: "get_obj (eval E k) h n = Raise e h' \<Longrightarrow> evolves h h'"
  using get_obj_evolves[of "eval E k" h n, OF eval_evolves] by simp

lemma eval_input_evolves:
  "res_evolves h (case n_prev (nodes h ! n) of
                    None \<Rightarrow> get_obj (eval E k) h n
                  | Some p \<Rightarrow> eval E k h p)"
  using get_obj_evolves[of "eval E k" h n, OF eval_evolves] eval_evolves
  by (simp split: option.splits)

lemma eval_dirty_Ok:
  assumes "n_dirty (nodes h ! n)" and "eval E (Suc k) h n = Ok v h'"
  shows "\<exists>h4 obj. evolves h h4 \<and> finish_eval E h4 n obj = Ok v h'"
proof -
  define r0 where "r0 = (case n_prev (nodes h ! n) of
                 None \<Rightarrow> get_obj (eval E k) h n
               | Some p \<Rightarrow> eval E k h p)"
  have r0e: "res_evolves h r0" unfolding r0_def by (rule eval_input_evolves)
  show ?thesis
  proof (cases r0)
    case (Ok obj h1)
    then have g1: "evolves h h1" using r0e by simp
    show ?thesis
    proof (cases "n_operation (nodes h1 ! n)")
      case nop: None
      then show ?thesis using assms Ok g1 by (auto simp: r0_def[symmetric])
    next
      case sop: (Some op)
      then show ?thesis using assms Ok g1
        by (auto simp: r0_def[symmetric] split: res.splits
                 dest!: resolve_args_Ok_evolves apply_operation_Ok_evolves)
    qed
  qed (use assms in \<open>auto simp: r0_def[symmetric]\<close>)
qed


text \<open>What the tail of \<^verbatim>\<open>eval\<close> leaves: the node is clean, its cache holds the value
  before the accessor is read, and the result is the accessor read off that value
  (the value itself where it has no such attribute).\<close>

lemma finish_eval_Ok:
  assumes "finish_eval E h1 n obj = Ok v h'" and "n < length (nodes h1)"
  shows "h' = upd_node h1 n (\<lambda>nd. nd\<lparr>n_current := obj, n_dirty := False\<rparr>)"
    and "\<not> n_dirty (nodes h' ! n)"
    and "n_current (nodes h' ! n) = obj"
    and "n_method (nodes h' ! n) = n_method (nodes h1 ! n)"
    and "v = exposed E (nodes h' ! n)"
  using assms
  by (auto simp: finish_eval_def Let_def exposed_def nth_upd_node
           split: if_splits option.splits)

lemma eval_Ok_clean:
  assumes "eval E k h n = Ok v h'" and "n < length (nodes h)"
  shows "\<not> n_dirty (nodes h' ! n)"
proof (cases k)
  case 0
  then show ?thesis using assms by simp
next
  case (Suc j)
  show ?thesis
  proof (cases "n_dirty (nodes h ! n)")
    case False
    then show ?thesis using assms Suc by simp
  next
    case True
    then obtain h4 obj where g: "evolves h h4" and f: "finish_eval E h4 n obj = Ok v h'"
      using eval_dirty_Ok assms Suc by blast
    have "n < length (nodes h4)" using g assms(2) by (simp add: evolves_def)
    then show ?thesis using f by (rule finish_eval_Ok(2)[rotated])
  qed
qed

lemma eval_dirty_Ok_value:
  assumes "eval E k h n = Ok v h'" and "n < length (nodes h)" and "n_dirty (nodes h ! n)"
  shows "v = exposed E (nodes h' ! n)"
proof (cases k)
  case 0
  then show ?thesis using assms by simp
next
  case (Suc j)
  obtain h4 obj where g: "evolves h h4" and f: "finish_eval E h4 n obj = Ok v h'"
    using eval_dirty_Ok assms Suc by blast
  have "n < length (nodes h4)" using g assms(2) by (simp add: evolves_def)
  then show ?thesis using f by (rule finish_eval_Ok(5)[rotated])
qed

lemma eval_clean: "\<not> n_dirty (nodes h ! n) \<Longrightarrow> eval E (Suc k) h n = Ok (n_current (nodes h ! n)) h"
  by simp

lemma evolves_length: "evolves h h' \<Longrightarrow> length (nodes h') = length (nodes h)"
  by (simp add: evolves_def)

lemma evolves_static: "evolves h h' \<Longrightarrow> i < length (nodes h) \<Longrightarrow> static (nodes h' ! i) = static (nodes h ! i)"
  by (simp add: evolves_def)

lemma static_fields:
  assumes "static a = static b"
  shows "n_fn a = n_fn b" "n_wrapper a = n_wrapper b" "n_method a = n_method b"
    "n_operation a = n_operation b" "n_depth a = n_depth b" "n_prev a = n_prev b"
    "n_kwargs a = n_kwargs b"
proof -
  have "n_fn (static a) = n_fn (static b)" "n_wrapper (static a) = n_wrapper (static b)"
    "n_method (static a) = n_method (static b)" "n_operation (static a) = n_operation (static b)"
    "n_depth (static a) = n_depth (static b)" "n_prev (static a) = n_prev (static b)"
    "n_kwargs (static a) = n_kwargs (static b)"
    using assms by simp_all
  then show "n_fn a = n_fn b" "n_wrapper a = n_wrapper b" "n_method a = n_method b"
    "n_operation a = n_operation b" "n_depth a = n_depth b" "n_prev a = n_prev b"
    "n_kwargs a = n_kwargs b"
    by (simp_all add: static_def)
qed

lemma evolves_clean:
  "evolves h h' \<Longrightarrow> i < length (nodes h) \<Longrightarrow> \<not> n_dirty (nodes h ! i) \<Longrightarrow>
   \<not> n_dirty (nodes h' ! i) \<and> n_current (nodes h' ! i) = n_current (nodes h ! i)"
  by (simp add: evolves_def)

lemma evolves_shared:
  "evolves h h' \<Longrightarrow> i < length (nodes h) \<Longrightarrow> n_shared_obj (nodes h ! i) = Some c \<Longrightarrow>
   n_shared_obj (nodes h' ! i) = Some c"
  by (simp add: evolves_def)

text \<open>The attribute hook.\<close>

lemma touch_evolves: "res_evolves h (touch E k h n)"
  using eval_evolves[of h E k n]
  by (auto simp: touch_def Let_def evolves_refl split: res.splits option.splits)

lemma touch_Ok_evolves: "touch E k h n = Ok u h' \<Longrightarrow> evolves h h'"
  using touch_evolves[of h E k n] by simp

lemma touch_Ok_clean:
  assumes "touch E k h n = Ok u h'" and "n < length (nodes h)"
  shows "\<not> n_dirty (nodes h' ! n)"
  using assms eval_Ok_clean[of E k h n]
  by (auto simp: touch_def Let_def split: res.splits option.splits if_splits)


text \<open>The dependency resolver touches nodes and changes nothing else.\<close>

lemma arg_params_evolves_aux:
  assumes pr: "\<And>h m. res_evolves h (params E k h m)"
  shows "res_evolves h (arg_params E k h as ps)"
proof (induction as arbitrary: h ps)
  case Nil
  show ?case by (simp add: evolves_refl)
next
  case (Cons a as)
  obtain key x where a: "a = (key, x)" by (cases a)
  show ?case
  proof (cases "node_of x")
    case None
    then show ?thesis using a Cons.IH by simp
  next
    case (Some m)
    have "res_evolves h (params E k h m)" by (rule pr)
    then show ?thesis using a Some Cons.IH
      by (auto split: res.splits intro: res_evolves_trans)
  qed
qed

lemma params_anc_evolves:
  "res_evolves h (params E k h n) \<and> res_evolves h (anc_params E k h pv ps)"
proof (induction k arbitrary: h n pv ps)
  case 0
  show ?case by (cases pv) (simp_all add: evolves_refl)
next
  case (Suc k)
  have pr: "\<And>h m. res_evolves h (params E k h m)" using Suc.IH by blast
  have an: "\<And>h pv ps. res_evolves h (anc_params E k h pv ps)" using Suc.IH by blast
  have ar: "\<And>h as ps. res_evolves h (arg_params E k h as ps)"
    by (rule arg_params_evolves_aux) (rule pr)
  have 1: "res_evolves h (params E (Suc k) h n)"
  proof (cases "touch E k h n")
    case (Ok u h1)
    then have g1: "evolves h h1" by (rule touch_Ok_evolves)
    show ?thesis
    proof (cases "anc_params E k h1 (n_prev (nodes h1 ! n)) (fn_params (nodes h1 ! n))")
      case ok2: (Ok ps2 h2)
      then have g2: "evolves h h2"
        using an[of h1 "n_prev (nodes h1 ! n)" "fn_params (nodes h1 ! n)"] g1
        by (auto intro: evolves_trans)
      show ?thesis
      proof (cases "n_operation (nodes h2 ! n)")
        case None
        then show ?thesis using Ok ok2 g2 by simp
      next
        case (Some op)
        show ?thesis
        proof (cases "arg_params E k h2 (map (Pair []) (op_args op)) ps2")
          case ok3: (Ok ps3 h3)
          then have g3: "evolves h h3"
            using ar[of h2 "map (Pair []) (op_args op)" ps2] g2 by (auto intro: evolves_trans)
          have "res_evolves h (arg_params E k h3 (op_kwargs op) ps3)"
            using g3 ar by (rule res_evolves_trans)
          then show ?thesis using Ok ok2 Some ok3 by simp
        next
          case (Raise e h3)
          then have "evolves h h3"
            using ar[of h2 "map (Pair []) (op_args op)" ps2] g2 by (auto intro: evolves_trans)
          then show ?thesis using Ok ok2 Some Raise by simp
        next
          case Diverge
          then show ?thesis using Ok ok2 Some by simp
        qed
      qed
    next
      case (Raise e h2)
      then have "evolves h h2"
        using an[of h1 "n_prev (nodes h1 ! n)" "fn_params (nodes h1 ! n)"] g1
        by (auto intro: evolves_trans)
      then show ?thesis using Ok Raise by simp
    next
      case Diverge
      then show ?thesis using Ok by simp
    qed
  next
    case (Raise e h1)
    then show ?thesis using touch_evolves[of h E k n] by simp
  next
    case Diverge
    then show ?thesis by simp
  qed
  have 2: "res_evolves h (anc_params E (Suc k) h pv ps)"
  proof (cases pv)
    case None
    then show ?thesis by (simp add: evolves_refl)
  next
    case (Some p)
    show ?thesis
    proof (cases "params E k h p")
      case (Ok qs h1)
      then have g1: "evolves h h1" using pr[of h p] by simp
      have "res_evolves h (anc_params E k h1 (n_prev (nodes h1 ! p)) (append_new ps qs))"
        using g1 an by (rule res_evolves_trans)
      then show ?thesis using Some Ok by simp
    next
      case (Raise e h1)
      then show ?thesis using Some pr[of h p] by simp
    next
      case Diverge
      then show ?thesis using Some by simp
    qed
  qed
  from 1 2 show ?case ..
qed

lemma params_evolves: "res_evolves h (params E k h n)"
  using params_anc_evolves by blast

lemma nodes_watch [simp]: "nodes (watch h cb ps) = nodes h"
  by (simp add: watch_def)

lemma evolves_watch [simp]: "evolves h (watch h' cb ps) = evolves h h'"
  by (simp add: evolves_def)

lemma setup_invalidations_evolves: "res_evolves h (setup_invalidations E k h n)"
proof (cases "touch E k h n")
  case (Ok u h1)
  then have g1: "evolves h h1" by (rule touch_Ok_evolves)
  define h2 where "h2 = (if n_depth (nodes h1 ! n) = 0
                     then watch h1 (UpdateObj n) (fn_params (nodes h1 ! n)) else h1)"
  have g2: "evolves h h2" using g1 by (simp add: h2_def)
  have "res_evolves h (params E k h2 n)" using g2 params_evolves by (rule res_evolves_trans)
  then show ?thesis using Ok
    by (auto simp: setup_invalidations_def Let_def h2_def[symmetric] split: res.splits)
next
  case (Raise e h1)
  then show ?thesis using touch_evolves[of h E k n] by (simp add: setup_invalidations_def)
next
  case Diverge
  then show ?thesis by (simp add: setup_invalidations_def)
qed

lemma setup_invalidations_Ok_clean:
  assumes "setup_invalidations E k h n = Ok u h'" and "n < length (nodes h)"
  shows "\<not> n_dirty (nodes h' ! n)"
proof (cases "touch E k h n")
  case (Ok u1 h1)
  then have g1: "evolves h h1" by (rule touch_Ok_evolves)
  have c1: "\<not> n_dirty (nodes h1 ! n)" using Ok assms(2) by (rule touch_Ok_clean)
  define h2 where "h2 = (if n_depth (nodes h1 ! n) = 0
                     then watch h1 (UpdateObj n) (fn_params (nodes h1 ! n)) else h1)"
  have n2: "nodes h2 = nodes h1" by (simp add: h2_def)
  obtain ps h3 where p: "params E k h2 n = Ok ps h3" and h': "h' = watch h3 (InvalidateCurrent n) ps"
    using assms(1) Ok
    by (auto simp: setup_invalidations_def Let_def h2_def[symmetric] split: res.splits)
  have "evolves h2 h3" using params_evolves[of h2 E k n] p by simp
  moreover have "n < length (nodes h2)" using n2 g1 assms(2) by (simp add: evolves_def)
  moreover have "\<not> n_dirty (nodes h2 ! n)" using c1 n2 by simp
  ultimately have "\<not> n_dirty (nodes h3 ! n)" using evolves_clean by blast
  then show ?thesis using h' by simp
qed (use assms in \<open>auto simp: setup_invalidations_def\<close>)

text \<open>Construction and cloning.\<close>

lemma evolves_grows: "evolves h h' \<Longrightarrow> grows h h'"
  by (simp add: evolves_def grows_def)

lemma grows_refl: "grows h h"
  by (simp add: grows_def)

lemma grows_trans:
  assumes "grows h1 h2" and "grows h2 h3"
  shows "grows h1 h3"
proof -
  obtain l1 l2 where "log h2 = log h1 @ l1" and "log h3 = log h2 @ l2"
    using assms by (auto simp: grows_def)
  then have "log h3 = log h1 @ (l1 @ l2)" by simp
  then have l: "\<exists>l. log h3 = log h1 @ l" ..
  have "length (nodes h1) \<le> length (nodes h3)" using assms by (simp add: grows_def)
  moreover have "\<forall>i < length (nodes h1).
        static (nodes h3 ! i) = static (nodes h1 ! i) \<and>
        (n_shared_obj (nodes h1 ! i) \<noteq> None \<longrightarrow>
           n_shared_obj (nodes h3 ! i) = n_shared_obj (nodes h1 ! i)) \<and>
        (\<not> n_dirty (nodes h1 ! i) \<longrightarrow>
           \<not> n_dirty (nodes h3 ! i) \<and> n_current (nodes h3 ! i) = n_current (nodes h1 ! i))"
    using assms unfolding grows_def by (metis (no_types, lifting) less_le_trans)
  ultimately show ?thesis using l unfolding grows_def by simp
qed


lemma grows_clean:
  "grows h h' \<Longrightarrow> i < length (nodes h) \<Longrightarrow> \<not> n_dirty (nodes h ! i) \<Longrightarrow>
   \<not> n_dirty (nodes h' ! i) \<and> n_current (nodes h' ! i) = n_current (nodes h ! i)"
  by (simp add: grows_def)

lemma grows_shared:
  "grows h h' \<Longrightarrow> i < length (nodes h) \<Longrightarrow> n_shared_obj (nodes h ! i) = Some c \<Longrightarrow>
   n_shared_obj (nodes h' ! i) = Some c"
  by (simp add: grows_def)

lemma grows_length: "grows h h' \<Longrightarrow> length (nodes h) \<le> length (nodes h')"
  by (simp add: grows_def)

lemma evolves_wrappers [simp]: "evolves h (h'\<lparr>wrappers := l\<rparr>) = evolves h h'"
  by (simp add: evolves_def)

lemma new_origin_evolves: "res_evolves h (new_origin E k h obj fn wr)"
proof (cases "node_of obj")
  case None
  then show ?thesis
    by (simp add: new_origin_def evolves_refl split: option.splits val.splits)
next
  case (Some m)
  then show ?thesis using params_evolves[of h E k m]
    by (cases "params E k h m"; cases fn) (simp_all add: new_origin_def)
qed

lemma new_origin_given:
  "new_origin E k h obj (Some f0) wr = Ok (f, w, v) h1 \<Longrightarrow> f = f0 \<and> w = wr"
  by (auto simp: new_origin_def split: option.splits res.splits)

lemma grows_append_node: "nodes h' = nodes h @ [nd] \<Longrightarrow> log h' = log h \<Longrightarrow> grows h h'"
  by (simp add: grows_def nth_append)

text \<open>The parent that \<^verbatim>\<open>__init__\<close> records: the origin itself when it is a node and no
  parent is passed.\<close>

lemma new_node_Ok:
  assumes "new_node E k h obj operation depth method prev shared fn wrapper kw = Ok m h'"
  shows "m = length (nodes h)"
    and "length (nodes h') = Suc (length (nodes h))"
    and "grows h h'"
    and "n_operation (nodes h' ! m) = operation"
    and "n_depth (nodes h' ! m) = depth"
    and "n_method (nodes h' ! m) = method"
    and "n_prev (nodes h' ! m) =
           (case node_of obj of
              Some m0 \<Rightarrow> (case prev of None \<Rightarrow> Some m0 | Some p \<Rightarrow> Some p)
            | None \<Rightarrow> prev)"
    and "n_kwargs (nodes h' ! m) = kw"
    and "\<not> n_dirty (nodes h' ! m)"
    and "shared \<noteq> None \<Longrightarrow> n_shared_obj (nodes h' ! m) = shared"
    and "\<exists>v h1. new_origin E k h obj fn wrapper =
                  Ok (n_fn (nodes h' ! m), n_wrapper (nodes h' ! m), v) h1"
proof -
  obtain fwv h1 where no0: "new_origin E k h obj fn wrapper = Ok fwv h1"
    using assms by (auto simp: new_node_def split: res.splits)
  obtain f w v where fwv: "fwv = (f, w, v)" by (cases fwv) auto
  have no: "new_origin E k h obj fn wrapper = Ok (f, w, v) h1" using no0 fwv by simp
  have e1: "evolves h h1" using new_origin_evolves[of h E k obj fn wrapper] no by simp
  have l1: "length (nodes h1) = length (nodes h)" using e1 by (simp add: evolves_def)
  define sh where "sh = (case shared of Some c \<Rightarrow> Some c
                 | None \<Rightarrow> if v = VNone then None else Some (length (cells h1)))"
  define h2 where "h2 = (case shared of Some c \<Rightarrow> h1
                 | None \<Rightarrow> if v = VNone then h1 else h1\<lparr>cells := cells h1 @ [v]\<rparr>)"
  have n2: "nodes h2 = nodes h1" by (simp add: h2_def split: option.splits)
  define prev' where "prev' = (case node_of obj of
              Some m0 \<Rightarrow> (case prev of None \<Rightarrow> Some m0 | Some p \<Rightarrow> Some p)
            | None \<Rightarrow> prev)"
  define nd where "nd = \<lparr>n_fn = f, n_shared_obj = sh, n_wrapper = w, n_method = method,
                      n_operation = operation, n_depth = depth, n_prev = prev', n_kwargs = kw,
                      n_dirty = True, n_current = VNone\<rparr>"
  define h3 where "h3 = h2\<lparr>nodes := nodes h2 @ [nd]\<rparr>"
  have n3: "nodes h3 = nodes h1 @ [nd]" using n2 by (simp add: h3_def)
  have su: "setup_invalidations E k h3 (length (nodes h)) = Ok () h' \<and> m = length (nodes h)"
    using assms no n2 l1
    by (auto simp: new_node_def Let_def sh_def h2_def nd_def h3_def prev'_def
             split: option.splits res.splits if_splits)
  then show m: "m = length (nodes h)" by simp
  have in3: "m < length (nodes h3)" using m n3 l1 by simp
  have m3: "nodes h3 ! m = nd" using m n3 l1 by (simp add: nth_append)
  have ev: "evolves h3 h'" using su setup_invalidations_evolves[of h3 E k "length (nodes h)"] by simp
  show "length (nodes h') = Suc (length (nodes h))" using ev n3 l1 by (simp add: evolves_def)
  have "log h3 = log h1" by (simp add: h3_def h2_def split: option.splits)
  with n3 have "grows h1 h3" by (rule grows_append_node)
  then have "grows h h3" using e1 by (blast intro: grows_trans evolves_grows)
  then show "grows h h'" using ev by (blast intro: grows_trans evolves_grows)
  have st: "static (nodes h' ! m) = static nd"
    using evolves_static[OF ev in3] m3 by simp
  show "n_operation (nodes h' ! m) = operation" using static_fields(4)[OF st] by (simp add: nd_def)
  show "n_depth (nodes h' ! m) = depth" using static_fields(5)[OF st] by (simp add: nd_def)
  show "n_method (nodes h' ! m) = method" using static_fields(3)[OF st] by (simp add: nd_def)
  show "n_prev (nodes h' ! m) =
           (case node_of obj of
              Some m0 \<Rightarrow> (case prev of None \<Rightarrow> Some m0 | Some p \<Rightarrow> Some p)
            | None \<Rightarrow> prev)"
    using static_fields(6)[OF st] by (simp add: nd_def prev'_def)
  show "n_kwargs (nodes h' ! m) = kw" using static_fields(7)[OF st] by (simp add: nd_def)
  have "n_fn (nodes h' ! m) = f" using static_fields(1)[OF st] by (simp add: nd_def)
  moreover have "n_wrapper (nodes h' ! m) = w" using static_fields(2)[OF st] by (simp add: nd_def)
  ultimately show "\<exists>v h1. new_origin E k h obj fn wrapper =
                  Ok (n_fn (nodes h' ! m), n_wrapper (nodes h' ! m), v) h1"
    using no by blast
  show "\<not> n_dirty (nodes h' ! m)"
    using su in3 m setup_invalidations_Ok_clean by blast
  show "n_shared_obj (nodes h' ! m) = shared" if sn: "shared \<noteq> None"
  proof -
    obtain c where c: "shared = Some c" using sn by auto
    then have "n_shared_obj (nodes h3 ! m) = Some c" using m3 by (simp add: nd_def sh_def)
    then show ?thesis using evolves_shared[OF ev in3] c by simp
  qed
qed

lemma set_obj_shared:
  "n < length (nodes h) \<Longrightarrow> n_shared_obj (nodes (set_obj h n v) ! n) \<noteq> None"
  by (auto simp: set_obj_def nth_upd_node upd_node_cells split: option.splits)

lemma get_obj_shared:
  assumes "get_obj (eval E k) h n = Ok v h'" and "n < length (nodes h)"
  shows "n_shared_obj (nodes h' ! n) \<noteq> None"
proof (cases "n_shared_obj (nodes h ! n)")
  case (Some c)
  then show ?thesis using assms by (simp add: get_obj_def)
next
  case None
  then obtain v0 h0 where e: "eval_function (eval E k) h (n_fn (nodes h ! n)) = Ok v0 h0"
    and h': "h' = set_obj h0 n v0"
    using assms(1) by (auto simp: get_obj_def Let_def split: res.splits)
  have "res_evolves h (eval_function (eval E k) h (n_fn (nodes h ! n)))"
    by (rule eval_function_evolves) (rule eval_evolves)
  then have "n < length (nodes h0)" using e assms(2) by (simp add: evolves_def)
  then show ?thesis unfolding h' by (rule set_obj_shared)
qed

lemma evolves_fields:
  assumes "evolves h h'" and "i < length (nodes h)"
  shows "n_fn (nodes h' ! i) = n_fn (nodes h ! i)"
    and "n_wrapper (nodes h' ! i) = n_wrapper (nodes h ! i)"
    and "n_method (nodes h' ! i) = n_method (nodes h ! i)"
    and "n_operation (nodes h' ! i) = n_operation (nodes h ! i)"
    and "n_depth (nodes h' ! i) = n_depth (nodes h ! i)"
    and "n_prev (nodes h' ! i) = n_prev (nodes h ! i)"
    and "n_kwargs (nodes h' ! i) = n_kwargs (nodes h ! i)"
  using static_fields[OF evolves_static[OF assms]] by simp_all


text \<open>What \<^verbatim>\<open>_clone\<close> returns.  \<open>h3\<close> is the store in which the constructor is called,
  and \<open>obj\<close> the root value that \<^verbatim>\<open>self._obj\<close> gave.\<close>

lemma clone_Ok_new_node:
  assumes "clone E k h n operation copy kw = Ok m h'" and "n < length (nodes h)"
  shows "\<exists>h2 h3 obj. evolves h h2 \<and> get_obj (eval E k) h2 n = Ok obj h3 \<and>
    evolves h h3 \<and> \<not> n_dirty (nodes h3 ! n) \<and> n_shared_obj (nodes h3 ! n) \<noteq> None \<and>
    new_node E k h3 obj
      (case operation of Some op \<Rightarrow> Some op | None \<Rightarrow> n_operation (nodes h ! n))
      (n_depth (nodes h ! n) + 1)
      (if copy then n_method (nodes h ! n) else None)
      (if copy then n_prev (nodes h ! n) else Some n)
      (n_shared_obj (nodes h3 ! n))
      (if copy then Some (n_fn (nodes h ! n)) else None)
      (if copy then n_wrapper (nodes h ! n) else None)
      (merge_kwargs (n_kwargs (nodes h ! n)) kw) = Ok m h'"
proof -
  obtain u h1 where t1: "touch E k h n = Ok u h1"
    using assms(1) by (auto simp: clone_def split: res.splits)
  have g1: "evolves h h1" using t1 by (rule touch_Ok_evolves)
  have c1: "\<not> n_dirty (nodes h1 ! n)" using t1 assms(2) by (rule touch_Ok_clean)
  have l1: "n < length (nodes h1)" using g1 assms(2) by (simp add: evolves_def)
  note f1 = evolves_fields[OF g1 assms(2)]
  define r where "r = (if copy then (case n_prev (nodes h1 ! n) of None \<Rightarrow> Ok () h1
                                     | Some p \<Rightarrow> touch E k h1 p) else Ok () h1)"
  have cl: "(case r of Diverge \<Rightarrow> Diverge | Raise e h2 \<Rightarrow> Raise e h2
             | Ok _ h2 \<Rightarrow>
                (case get_obj (eval E k) h2 n of Diverge \<Rightarrow> Diverge | Raise e h3 \<Rightarrow> Raise e h3
                 | Ok obj h3 \<Rightarrow> new_node E k h3 obj
                 (case operation of Some op \<Rightarrow> Some op | None \<Rightarrow> n_operation (nodes h1 ! n))
                 (n_depth (nodes h1 ! n) + 1)
                 (if copy then n_method (nodes h3 ! n) else None)
                 (if copy then n_prev (nodes h3 ! n) else Some n)
                 (n_shared_obj (nodes h3 ! n))
                 (if copy then Some (n_fn (nodes h3 ! n)) else None)
                 (if copy then n_wrapper (nodes h3 ! n) else None)
                 (merge_kwargs (n_kwargs (nodes h1 ! n)) kw))) = Ok m h'"
    using assms(1) t1 unfolding clone_def Let_def r_def
    by (cases copy) (simp_all cong: res.case_cong)
  obtain u2 h2 where t2: "r = Ok u2 h2" using cl by (cases r) simp_all
  have g2: "evolves h1 h2"
    using t2 touch_Ok_evolves
    by (auto simp: r_def evolves_refl split: option.splits if_splits)
  have c2: "\<not> n_dirty (nodes h2 ! n)" using evolves_clean[OF g2 l1 c1] by simp
  have l2: "n < length (nodes h2)" using g2 l1 by (simp add: evolves_def)
  have g02: "evolves h h2" using g1 g2 by (rule evolves_trans)
  obtain obj h3 where go: "get_obj (eval E k) h2 n = Ok obj h3"
    using cl t2 by (cases "get_obj (eval E k) h2 n") simp_all
  have g3: "evolves h2 h3" using go by (rule get_obj_Ok_evolves)
  have g03: "evolves h h3" using g02 g3 by (rule evolves_trans)
  note f3 = evolves_fields[OF g03 assms(2)]
  have b: "\<not> n_dirty (nodes h3 ! n)" using evolves_clean[OF g3 l2 c2] by simp
  have c: "n_shared_obj (nodes h3 ! n) \<noteq> None" using go l2 by (rule get_obj_shared)
  have d: "new_node E k h3 obj
      (case operation of Some op \<Rightarrow> Some op | None \<Rightarrow> n_operation (nodes h ! n))
      (n_depth (nodes h ! n) + 1)
      (if copy then n_method (nodes h ! n) else None)
      (if copy then n_prev (nodes h ! n) else Some n)
      (n_shared_obj (nodes h3 ! n))
      (if copy then Some (n_fn (nodes h ! n)) else None)
      (if copy then n_wrapper (nodes h ! n) else None)
      (merge_kwargs (n_kwargs (nodes h ! n)) kw) = Ok m h'"
    using cl t2 go f1 f3 by (cases copy) (simp_all cong: option.case_cong)
  show ?thesis using g02 go g03 b c d by blast
qed

lemma clone_Ok:
  assumes "clone E k h n operation copy kw = Ok m h'" and "n < length (nodes h)"
  shows "m = length (nodes h)"
    and "length (nodes h') = Suc (length (nodes h))"
    and "grows h h'"
    and "n_depth (nodes h' ! m) = n_depth (nodes h ! n) + 1"
    and "\<exists>h2 obj h3. evolves h h2 \<and> get_obj (eval E k) h2 n = Ok obj h3 \<and>
           n_prev (nodes h' ! m) =
             (case (if copy then n_prev (nodes h ! n) else Some n) of
                Some p \<Rightarrow> Some p | None \<Rightarrow> node_of obj)"
    and "n_operation (nodes h' ! m) =
           (case operation of Some op \<Rightarrow> Some op | None \<Rightarrow> n_operation (nodes h ! n))"
    and "n_method (nodes h' ! m) = (if copy then n_method (nodes h ! n) else None)"
    and "n_kwargs (nodes h' ! m) = merge_kwargs (n_kwargs (nodes h ! n)) kw"
    and "\<not> n_dirty (nodes h' ! m)"
    and "\<not> n_dirty (nodes h' ! n)"
    and "n_shared_obj (nodes h' ! m) = n_shared_obj (nodes h' ! n)"
    and "n_shared_obj (nodes h' ! n) \<noteq> None"
    and "copy \<Longrightarrow> n_wrapper (nodes h' ! m) = n_wrapper (nodes h ! n)"
    and "copy \<Longrightarrow> n_fn (nodes h' ! m) = n_fn (nodes h ! n)"
    and "\<not> copy \<Longrightarrow> n_prev (nodes h' ! m) = Some n"
    and "copy \<Longrightarrow> n_prev (nodes h ! n) \<noteq> None \<Longrightarrow> n_prev (nodes h' ! m) = n_prev (nodes h ! n)"
proof -
  obtain h2 h3 obj where g2: "evolves h h2" and go: "get_obj (eval E k) h2 n = Ok obj h3"
    and g: "evolves h h3" and c3: "\<not> n_dirty (nodes h3 ! n)"
    and s3: "n_shared_obj (nodes h3 ! n) \<noteq> None"
    and nn: "new_node E k h3 obj
      (case operation of Some op \<Rightarrow> Some op | None \<Rightarrow> n_operation (nodes h ! n))
      (n_depth (nodes h ! n) + 1)
      (if copy then n_method (nodes h ! n) else None)
      (if copy then n_prev (nodes h ! n) else Some n)
      (n_shared_obj (nodes h3 ! n))
      (if copy then Some (n_fn (nodes h ! n)) else None)
      (if copy then n_wrapper (nodes h ! n) else None)
      (merge_kwargs (n_kwargs (nodes h ! n)) kw) = Ok m h'"
    using clone_Ok_new_node[OF assms] by blast
  note N = new_node_Ok[OF nn]
  have l3: "length (nodes h3) = length (nodes h)" using g by (simp add: evolves_def)
  have n3: "n < length (nodes h3)" using l3 assms(2) by simp
  show "m = length (nodes h)" using N(1) l3 by simp
  show "length (nodes h') = Suc (length (nodes h))" using N(2) l3 by simp
  show "grows h h'" using evolves_grows[OF g] N(3) by (rule grows_trans)
  show "n_depth (nodes h' ! m) = n_depth (nodes h ! n) + 1" by (rule N(5))
  have pv: "n_prev (nodes h' ! m) =
             (case (if copy then n_prev (nodes h ! n) else Some n) of
                Some p \<Rightarrow> Some p | None \<Rightarrow> node_of obj)"
    using N(7) by (simp split: option.splits)
  then show "\<exists>h2 obj h3. evolves h h2 \<and> get_obj (eval E k) h2 n = Ok obj h3 \<and>
           n_prev (nodes h' ! m) =
             (case (if copy then n_prev (nodes h ! n) else Some n) of
                Some p \<Rightarrow> Some p | None \<Rightarrow> node_of obj)"
    using g2 go by blast
  show "n_prev (nodes h' ! m) = Some n" if "\<not> copy" using pv that by simp
  show "n_prev (nodes h' ! m) = n_prev (nodes h ! n)" if copy and "n_prev (nodes h ! n) \<noteq> None"
    using pv that by auto
  show "n_operation (nodes h' ! m) =
           (case operation of Some op \<Rightarrow> Some op | None \<Rightarrow> n_operation (nodes h ! n))" by (rule N(4))
  show "n_method (nodes h' ! m) = (if copy then n_method (nodes h ! n) else None)" by (rule N(6))
  show "n_kwargs (nodes h' ! m) = merge_kwargs (n_kwargs (nodes h ! n)) kw" by (rule N(8))
  show "\<not> n_dirty (nodes h' ! m)" by (rule N(9))
  show "\<not> n_dirty (nodes h' ! n)" using grows_clean[OF N(3) n3 c3] by simp
  obtain c where c: "n_shared_obj (nodes h3 ! n) = Some c" using s3 by auto
  have sn: "n_shared_obj (nodes h' ! n) = Some c" using grows_shared[OF N(3) n3 c] .
  have sm: "n_shared_obj (nodes h' ! m) = Some c" using N(10) c by simp
  show "n_shared_obj (nodes h' ! m) = n_shared_obj (nodes h' ! n)" using sn sm by simp
  show "n_shared_obj (nodes h' ! n) \<noteq> None" using sn by simp
  show "n_wrapper (nodes h' ! m) = n_wrapper (nodes h ! n)" if cp: copy
    using N(11) cp new_origin_given by fastforce
  show "n_fn (nodes h' ! m) = n_fn (nodes h ! n)" if cp: copy
    using N(11) cp new_origin_given by fastforce
qed

text \<open>A dirty node with an operation that evaluates has had its operation invoked.\<close>

lemma apply_operation_Ok_log:
  "apply_operation E h3 obj op ras rkw = Ok v h4 \<Longrightarrow>
   \<exists>inv. i_fn inv = op_fn op \<and> log h4 = log h3 @ [inv] \<and> nodes h4 = nodes h3"
  by (auto simp: apply_operation_def of_sum_def log_call_def
           split: fnref.splits option.splits list.splits sum.splits if_splits)

lemma finish_eval_Ok_log: "finish_eval E h1 n obj = Ok v h' \<Longrightarrow> log h' = log h1"
  by (auto simp: finish_eval_def Let_def split: if_splits option.splits)

lemma evolves_log: "evolves h h' \<Longrightarrow> \<exists>l. log h' = log h @ l"
  by (simp add: evolves_def)

lemma grows_log: "grows h h' \<Longrightarrow> \<exists>l. log h' = log h @ l"
  by (simp add: grows_def)

lemma eval_dirty_op_Ok:
  assumes d: "n_dirty (nodes h ! n)" and n: "n < length (nodes h)"
    and op: "n_operation (nodes h ! n) = Some op"
    and ev: "eval E (Suc k) h n = Ok v h'"
  shows "\<exists>l inv. i_fn inv = op_fn op \<and> log h' = log h @ l @ [inv]"
proof -
  define r0 where "r0 = (case n_prev (nodes h ! n) of
                 None \<Rightarrow> get_obj (eval E k) h n
               | Some p \<Rightarrow> eval E k h p)"
  have r0: "res_evolves h r0" unfolding r0_def by (rule eval_input_evolves)
  obtain obj h1 where ok1: "r0 = Ok obj h1"
    using ev d by (cases r0) (auto simp: r0_def[symmetric])
  have g1: "evolves h h1" using r0 ok1 by simp
  have op1: "n_operation (nodes h1 ! n) = Some op" using evolves_fields(4)[OF g1 n] op by simp
  obtain ras h2 where ok2: "resolve_args E k h1 (op_args op) = Ok ras h2"
    using ev d ok1 op1 by (cases "resolve_args E k h1 (op_args op)") (auto simp: r0_def[symmetric])
  have g2: "evolves h h2" using ok2 g1 by (rule resolve_args_Ok_evolves)
  obtain rks h3 where ok3: "resolve_args E k h2 (map snd (op_kwargs op)) = Ok rks h3"
    using ev d ok1 op1 ok2
    by (cases "resolve_args E k h2 (map snd (op_kwargs op))") (auto simp: r0_def[symmetric])
  have g3: "evolves h h3" using ok3 g2 by (rule resolve_args_Ok_evolves)
  obtain obj' h4 where ok4: "apply_operation E h3 obj op ras (zip (map fst (op_kwargs op)) rks) = Ok obj' h4"
    using ev d ok1 op1 ok2 ok3
    by (cases "apply_operation E h3 obj op ras (zip (map fst (op_kwargs op)) rks)")
       (auto simp: r0_def[symmetric])
  have fin: "finish_eval E h4 n obj' = Ok v h'"
    using ev d ok1 op1 ok2 ok3 ok4 by (simp add: r0_def[symmetric])
  obtain inv where inv: "i_fn inv = op_fn op" "log h4 = log h3 @ [inv]"
    using apply_operation_Ok_log[OF ok4] by blast
  obtain l where l: "log h3 = log h @ l" using evolves_log[OF g3] by blast
  have "log h' = log h @ l @ [inv]" using finish_eval_Ok_log[OF fin] inv(2) l by simp
  then show ?thesis using inv(1) by blast
qed

lemma touch_dirty_Ok:
  "touch E k h n = Ok u h1 \<Longrightarrow> n_dirty (nodes h ! n) \<Longrightarrow> \<exists>v. eval E k h n = Ok v h1"
  by (auto simp: touch_def Let_def split: res.splits option.splits if_splits)

lemma setup_invalidations_Ok_touch:
  assumes "setup_invalidations E k h n = Ok u h'"
  shows "\<exists>h1. touch E k h n = Ok () h1 \<and> evolves h1 h'"
proof -
  obtain h1 where t: "touch E k h n = Ok () h1"
    using assms by (auto simp: setup_invalidations_def split: res.splits)
  define h2 where "h2 = (if n_depth (nodes h1 ! n) = 0
                     then watch h1 (UpdateObj n) (fn_params (nodes h1 ! n)) else h1)"
  have g2: "evolves h1 h2" by (simp add: h2_def evolves_refl)
  obtain ps h3 where p: "params E k h2 n = Ok ps h3" and h': "h' = watch h3 (InvalidateCurrent n) ps"
    using assms t
    by (auto simp: setup_invalidations_def Let_def h2_def[symmetric] split: res.splits)
  have "evolves h2 h3" using params_evolves[of h2 E k n] p by simp
  then have "evolves h1 h3" using g2 by (blast intro: evolves_trans)
  then show ?thesis using t h' by simp
qed

text \<open>A node built with an operation has had the operation invoked by the time the
  constructor returns.\<close>

lemma new_node_Ok_invoked:
  assumes "new_node E k h obj (Some op) depth method prev shared fn wrapper kw = Ok m h'"
  shows "\<exists>l inv l'. i_fn inv = op_fn op \<and> log h' = log h @ l @ [inv] @ l'"
proof -
  obtain fwv h1 where no0: "new_origin E k h obj fn wrapper = Ok fwv h1"
    using assms by (auto simp: new_node_def split: res.splits)
  obtain f w v where fwv: "fwv = (f, w, v)" by (cases fwv) auto
  have no: "new_origin E k h obj fn wrapper = Ok (f, w, v) h1" using no0 fwv by simp
  have e1: "evolves h h1" using new_origin_evolves[of h E k obj fn wrapper] no by simp
  have n1: "length (nodes h1) = length (nodes h)" using e1 by (simp add: evolves_def)
  obtain l0 where l1: "log h1 = log h @ l0" using evolves_log[OF e1] by blast
  define sh where "sh = (case shared of Some c \<Rightarrow> Some c
                 | None \<Rightarrow> if v = VNone then None else Some (length (cells h1)))"
  define h2 where "h2 = (case shared of Some c \<Rightarrow> h1
                 | None \<Rightarrow> if v = VNone then h1 else h1\<lparr>cells := cells h1 @ [v]\<rparr>)"
  have n2: "nodes h2 = nodes h1" by (simp add: h2_def split: option.splits)
  define prev' where "prev' = (case node_of obj of
              Some m0 \<Rightarrow> (case prev of None \<Rightarrow> Some m0 | Some p \<Rightarrow> Some p)
            | None \<Rightarrow> prev)"
  define nd where "nd = \<lparr>n_fn = f, n_shared_obj = sh, n_wrapper = w, n_method = method,
                      n_operation = Some op, n_depth = depth, n_prev = prev', n_kwargs = kw,
                      n_dirty = True, n_current = VNone\<rparr>"
  define h3 where "h3 = h2\<lparr>nodes := nodes h2 @ [nd]\<rparr>"
  have n3: "nodes h3 = nodes h1 @ [nd]" using n2 by (simp add: h3_def)
  have l3: "log h3 = log h1" by (simp add: h3_def h2_def split: option.splits)
  have su: "setup_invalidations E k h3 (length (nodes h)) = Ok () h'"
    using assms no n2 n1
    by (auto simp: new_node_def Let_def sh_def h2_def nd_def h3_def prev'_def
             split: option.splits res.splits if_splits)
  let ?m = "length (nodes h)"
  have m3: "nodes h3 ! ?m = nd" using n3 n1 by (simp add: nth_append)
  obtain h4 where t: "touch E k h3 ?m = Ok () h4" and g4: "evolves h4 h'"
    using setup_invalidations_Ok_touch[OF su] by blast
  have d: "n_dirty (nodes h3 ! ?m)" using m3 by (simp add: nd_def)
  obtain v' where ev: "eval E k h3 ?m = Ok v' h4" using touch_dirty_Ok[OF t d] by blast
  obtain j where k: "k = Suc j" using ev by (cases k) auto
  have "n_operation (nodes h3 ! ?m) = Some op" using m3 by (simp add: nd_def)
  moreover have "?m < length (nodes h3)" using n3 n1 by simp
  ultimately obtain l inv where inv: "i_fn inv = op_fn op" "log h4 = log h3 @ l @ [inv]"
    using eval_dirty_op_Ok[OF d _ _ ev[unfolded k]] by blast
  obtain l' where "log h' = log h4 @ l'" using evolves_log[OF g4] by blast
  then have "log h' = log h @ (l0 @ l) @ [inv] @ l'" using inv(2) l3 l1 by simp
  then show ?thesis using inv(1) by blast
qed

lemma clone_Ok_invoked:
  assumes "clone E k h n (Some op) copy kw = Ok m h'" and "n < length (nodes h)"
  shows "\<exists>l inv l'. i_fn inv = op_fn op \<and> log h' = log h @ l @ [inv] @ l'"
proof -
  obtain h3 obj where g: "evolves h h3"
    and nn: "new_node E k h3 obj (Some op) (n_depth (nodes h ! n) + 1)
      (if copy then n_method (nodes h ! n) else None)
      (if copy then n_prev (nodes h ! n) else Some n)
      (n_shared_obj (nodes h3 ! n))
      (if copy then Some (n_fn (nodes h ! n)) else None)
      (if copy then n_wrapper (nodes h ! n) else None)
      (merge_kwargs (n_kwargs (nodes h ! n)) kw) = Ok m h'"
    using clone_Ok_new_node[OF assms] by auto
  obtain l inv l' where inv: "i_fn inv = op_fn op" "log h' = log h3 @ l @ [inv] @ l'"
    using new_node_Ok_invoked[OF nn] by blast
  obtain l0 where "log h3 = log h @ l0" using evolves_log[OF g] by blast
  then have "log h' = log h @ (l0 @ l) @ [inv] @ l'" using inv(2) by simp
  then show ?thesis using inv(1) by blast
qed


lemma value_of_Ok: "value_of r = Some v \<Longrightarrow> r = Ok v (heap_of r)"
  by (cases r) (simp_all add: value_of_def heap_of_def)

text \<open>The node that resolving an accessor returns is a node of the store.\<close>

lemma clear_method_Ok:
  "clear_method n r = Ok m h' \<Longrightarrow>
   \<exists>h1. r = Ok m h1 \<and> h' = upd_node h1 n (\<lambda>nd. nd\<lparr>n_method := None\<rparr>)"
  by (cases r) (simp_all add: clear_method_def)

lemma resolve_accessor_Ok:
  assumes "resolve_accessor E k h n = Ok m h'" and "n < length (nodes h)"
  shows "m < length (nodes h')"
proof -
  obtain h1 where t: "touch E k h n = Ok () h1"
    using assms(1) by (auto simp: resolve_accessor_def split: res.splits)
  have l1: "n < length (nodes h1)" using touch_Ok_evolves[OF t] assms(2) by (simp add: evolves_def)
  show ?thesis
  proof (cases "truthy_method (n_method (nodes h1 ! n))")
    case False
    then have "clone E k h1 n None True [] = Ok m h'"
      using assms(1) t by (simp add: resolve_accessor_def)
    then show ?thesis using clone_Ok(1,2)[OF _ l1] by simp
  next
    case True
    then have "clear_method n (clone E k h1 n
        (Some (accessor_operation (the (n_method (nodes h1 ! n))))) False []) = Ok m h'"
      using assms(1) t by (simp add: resolve_accessor_def)
    then obtain h2 where c: "clone E k h1 n
        (Some (accessor_operation (the (n_method (nodes h1 ! n))))) False [] = Ok m h2"
      and h': "h' = upd_node h2 n (\<lambda>nd. nd\<lparr>n_method := None\<rparr>)"
      using clear_method_Ok by blast
    show ?thesis using clone_Ok(1,2)[OF c l1] h' by simp
  qed
qed

lemma apply_operator_Ok:
  assumes "apply_operator E k h n f args rv kw = Ok m h'" and "n < length (nodes h)"
  shows "n_operation (nodes h' ! m) =
           Some \<lparr>op_fn = Fn f, op_args = args, op_kwargs = kw, op_reverse = rv\<rparr>"
    and "\<not> n_dirty (nodes h' ! m)"
proof -
  obtain new h1 where r: "resolve_accessor E k h n = Ok new h1"
    and c: "clone E k h1 new
            (Some \<lparr>op_fn = Fn f, op_args = args, op_kwargs = kw, op_reverse = rv\<rparr>)
            False [] = Ok m h'"
    using assms(1) by (auto simp: apply_operator_def split: res.splits)
  have l: "new < length (nodes h1)" using r assms(2) by (rule resolve_accessor_Ok)
  show "n_operation (nodes h' ! m) =
           Some \<lparr>op_fn = Fn f, op_args = args, op_kwargs = kw, op_reverse = rv\<rparr>"
    using clone_Ok(6)[OF c l] by simp
  show "\<not> n_dirty (nodes h' ! m)" using clone_Ok(9)[OF c l] .
qed

lemma reflected_operator_reverse: "reflected_operator r = Some fr \<Longrightarrow> snd fr = True"
  by (cases r) auto

lemma reflected_op_Ok:
  assumes "reflected_op E k h n r other = Ok m h'" and "n < length (nodes h)"
  shows "\<exists>f. reflected_operator r = Some (f, True) \<and>
             n_operation (nodes h' ! m) =
               Some \<lparr>op_fn = Fn f, op_args = [other], op_kwargs = [], op_reverse = True\<rparr>"
proof -
  obtain h1 where t: "touch E k h n = Ok () h1"
    using assms(1) by (auto simp: reflected_op_def split: res.splits)
  have l1: "n < length (nodes h1)" using touch_Ok_evolves[OF t] assms(2) by (simp add: evolves_def)
  obtain fr where fr: "reflected_operator r = Some fr"
    and a: "apply_operator E k h1 n (fst fr) [other] (snd fr) [] = Ok m h'"
    using assms(1) t by (auto simp: reflected_op_def split: option.splits)
  have s: "snd fr = True" using fr by (rule reflected_operator_reverse)
  then have "fr = (fst fr, True)" by (cases fr) simp
  then show ?thesis using fr apply_operator_Ok(1)[OF a l1] s by (cases fr) auto
qed



text \<open>The walk of \<^verbatim>\<open>set\<close> along the path of a node.\<close>

lemma nth_upd_field:
  assumes "\<And>x. g (f x) = g x"
  shows "g (nodes (upd_node h p f) ! i) = g (nodes h ! i)"
proof (cases "i = p \<and> p < length (nodes h)")
  case True
  then show ?thesis using assms by (simp add: upd_node_def)
next
  case False
  show ?thesis
  proof (cases "i = p")
    case True
    then have "length (nodes h) \<le> p" using False by simp
    then show ?thesis using True by (simp add: upd_node_def list_update_beyond)
  next
    case False
    then show ?thesis by (simp add: upd_node_def)
  qed
qed

lemma upd_dirty_prev [simp]:
  "n_prev (nodes (upd_node h p (\<lambda>nd. nd\<lparr>n_dirty := True\<rparr>)) ! i) = n_prev (nodes h ! i)"
  by (rule nth_upd_field) simp

lemma upd_dirty_wrapper [simp]:
  "n_wrapper (nodes (upd_node h p (\<lambda>nd. nd\<lparr>n_dirty := True\<rparr>)) ! i) = n_wrapper (nodes h ! i)"
  by (rule nth_upd_field) simp


lemma path_upd_dirty [simp]:
  "path k (upd_node h p (\<lambda>nd. nd\<lparr>n_dirty := True\<rparr>)) n = path k h n"
  by (induction k arbitrary: n) (simp_all cong: option.case_cong)

lemma mark_dirty_Nil [simp]: "mark_dirty h [] = h"
  by (simp add: mark_dirty_def)

lemma mark_dirty_Cons [simp]:
  "mark_dirty h (p # ps) = mark_dirty (upd_node h p (\<lambda>nd. nd\<lparr>n_dirty := True\<rparr>)) ps"
  by (simp add: mark_dirty_def)

lemma length_mark_dirty [simp]: "length (nodes (mark_dirty h ps)) = length (nodes h)"
  by (induction ps arbitrary: h) simp_all

lemma mark_dirty_wrapper [simp]:
  "n_wrapper (nodes (mark_dirty h ps) ! i) = n_wrapper (nodes h ! i)"
  by (induction ps arbitrary: h) simp_all






text \<open>
  A node that \<^verbatim>\<open>_clone\<close> builds with an operation is evaluated inside its
  constructor: when the clone is returned the operation has been invoked, the node is
  clean, and \<^verbatim>\<open>eval()\<close> returns the cached value and leaves the store as it is.
\<close>

lemma clone_evaluates_new_node:
  assumes "clone E k h n (Some op) copy kw = Ok m h'" and "n < length (nodes h)"
  shows "\<not> n_dirty (nodes h' ! m) \<and>
         (\<exists>l inv l'. i_fn inv = op_fn op \<and> log h' = log h @ l @ [inv] @ l') \<and>
         eval E (Suc j) h' m = Ok (n_current (nodes h' ! m)) h'"
proof -
  have c: "\<not> n_dirty (nodes h' ! m)" using clone_Ok(9)[OF assms] .
  then have "eval E (Suc j) h' m = Ok (n_current (nodes h' ! m)) h'" by simp
  then show ?thesis using c clone_Ok_invoked[OF assms] by blast
qed

text \<open>
  The order of the operands in \<^verbatim>\<open>_eval_operation\<close>.  For a dirty node whose input
  value is \<open>x\<close> and whose operation records the callable \<open>f\<close>, with its arguments
  resolved to \<open>ras\<close> and its keyword arguments to \<open>rks\<close>: evaluation invokes \<open>f\<close>
  once, on \<open>a # x # rest\<close> when the operation is reversed and \<open>ras = a # rest\<close>, and
  on \<open>x # ras\<close> when it is not.  A reflected operator method that returns a node has
  recorded its callable with the other operand as the only argument and the reverse
  flag set.
\<close>

lemma eval_operand_order:
  assumes "n_dirty (nodes h ! n)"
    and "(case n_prev (nodes h ! n) of
            None \<Rightarrow> get_obj (eval E k) h n
          | Some p \<Rightarrow> eval E k h p) = Ok x h1"
    and "n_operation (nodes h1 ! n) =
           Some \<lparr>op_fn = Fn f, op_args = args, op_kwargs = kw, op_reverse = rv\<rparr>"
    and "resolve_args E k h1 args = Ok ras h2"
    and "resolve_args E k h2 (map snd kw) = Ok rks h3"
  shows "(rv \<and> ras = a # rest \<longrightarrow>
            eval E (Suc k) h n =
              (case py_apply E f (a # x # rest) (zip (map fst kw) rks) of
                 Inl e \<Rightarrow> Raise e (log_call h3 (Fn f) (a # x # rest) (zip (map fst kw) rks))
               | Inr v \<Rightarrow>
                   finish_eval E (log_call h3 (Fn f) (a # x # rest) (zip (map fst kw) rks)) n v)) \<and>
         (\<not> rv \<longrightarrow>
            eval E (Suc k) h n =
              (case py_apply E f (x # ras) (zip (map fst kw) rks) of
                 Inl e \<Rightarrow> Raise e (log_call h3 (Fn f) (x # ras) (zip (map fst kw) rks))
               | Inr v \<Rightarrow>
                   finish_eval E (log_call h3 (Fn f) (x # ras) (zip (map fst kw) rks)) n v)) \<and>
         (\<forall>k0 h0 n0 r other m h'.
            reflected_op E k0 h0 n0 r other = Ok m h' \<and> n0 < length (nodes h0) \<longrightarrow>
            (\<exists>g. reflected_operator r = Some (g, True) \<and>
                 n_operation (nodes h' ! m) =
                   Some \<lparr>op_fn = Fn g, op_args = [other], op_kwargs = [], op_reverse = True\<rparr>))"
proof -
  have 1: "rv \<and> ras = a # rest \<longrightarrow>
            eval E (Suc k) h n =
              (case py_apply E f (a # x # rest) (zip (map fst kw) rks) of
                 Inl e \<Rightarrow> Raise e (log_call h3 (Fn f) (a # x # rest) (zip (map fst kw) rks))
               | Inr v \<Rightarrow>
                   finish_eval E (log_call h3 (Fn f) (a # x # rest) (zip (map fst kw) rks)) n v)"
    using assms by (auto simp: apply_operation_def of_sum_def split: sum.splits)
  have 2: "\<not> rv \<longrightarrow>
            eval E (Suc k) h n =
              (case py_apply E f (x # ras) (zip (map fst kw) rks) of
                 Inl e \<Rightarrow> Raise e (log_call h3 (Fn f) (x # ras) (zip (map fst kw) rks))
               | Inr v \<Rightarrow>
                   finish_eval E (log_call h3 (Fn f) (x # ras) (zip (map fst kw) rks)) n v)"
    using assms by (auto simp: apply_operation_def of_sum_def split: sum.splits)
  show ?thesis using 1 2 reflected_op_Ok by blast
qed

lemma eval_operand_order_example:
  "value_of const_rsub = Some 2 \<and>
   n_operation (nodes (heap_of const_rsub) ! 2) =
     Some \<lparr>op_fn = Fn Sub, op_args = [VInt 5], op_kwargs = [], op_reverse = True\<rparr> \<and>
   value_of const_rsub_parent = Some (VInt 10) \<and>
   eval std_env 20 (heap_of const_rsub_set) 2 =
     finish_eval std_env (log_call (heap_of const_rsub_parent) (Fn Sub) [VInt 5, VInt 10] []) 2
       (VInt (- 5))"
proof -
  let ?h = "heap_of const_rsub_set" and ?h1 = "heap_of const_rsub_parent"
  have d: "n_dirty (nodes ?h ! 2)" by code_simp
  have vp: "value_of const_rsub_parent = Some (VInt 10)" by code_simp
  have pr: "n_prev (nodes ?h ! 2) = Some 1" by code_simp
  have p: "(case n_prev (nodes ?h ! 2) of
            None \<Rightarrow> get_obj (eval std_env 19) ?h 2
          | Some p \<Rightarrow> eval std_env 19 ?h p) = Ok (VInt 10) ?h1"
    using value_of_Ok[OF vp] pr by (simp add: const_rsub_parent_def)
  have o: "n_operation (nodes ?h1 ! 2) =
           Some \<lparr>op_fn = Fn Sub, op_args = [VInt 5], op_kwargs = [], op_reverse = True\<rparr>"
    by code_simp
  have a1: "resolve_args std_env 19 ?h1 [VInt 5] = Ok [VInt 5] ?h1"
    by (simp add: node_of_def resolve_plain_def transform_dependency_def)
  have a2: "resolve_args std_env 19 ?h1 (map snd []) = Ok [] ?h1" by simp
  note T = eval_operand_order[OF d p o a1 a2, of "VInt 5" "[]"]
  have s: "py_apply std_env Sub [VInt 5, VInt 10] [] = Inr (VInt (- 5))" by code_simp
  have e: "eval std_env 20 ?h 2 =
     finish_eval std_env (log_call ?h1 (Fn Sub) [VInt 5, VInt 10] []) 2 (VInt (- 5))"
    using T s by simp
  have v: "value_of const_rsub = Some 2" by code_simp
  have c: "reflected_op std_env 20 (heap_of const_root) 0 Rsub (VInt 5) = Ok 2 (heap_of const_rsub)"
    using value_of_Ok[OF v] by (simp add: const_rsub_def)
  have l: "0 < length (nodes (heap_of const_root))" by code_simp
  obtain g where g: "reflected_operator Rsub = Some (g, True)"
    "n_operation (nodes (heap_of const_rsub) ! 2) =
       Some \<lparr>op_fn = Fn g, op_args = [VInt 5], op_kwargs = [], op_reverse = True\<rparr>"
    using T c l by blast
  then have "g = Sub" by simp
  then show ?thesis using v vp e g(2) by simp
qed

text \<open>Evaluating a node of a store whose references point to older nodes leaves the
  dirty flags and the caches of all newer nodes as they are.\<close>

lemma keeps_refl: "keeps b h h"
  by (simp add: keeps_def)

lemma keeps_trans: "keeps b h1 h2 \<Longrightarrow> keeps b h2 h3 \<Longrightarrow> keeps b h1 h3"
  by (simp add: keeps_def)

lemma keeps_mono: "keeps b h h' \<Longrightarrow> b \<le> b' \<Longrightarrow> keeps b' h h'"
  by (simp add: keeps_def)

lemma res_keeps_simps [simp]:
  "res_keeps b h (Ok v h') = keeps b h h'"
  "res_keeps b h (Raise e h') = keeps b h h'"
  "res_keeps b h Diverge = True"
  by (simp_all add: res_keeps_def)

lemma res_keeps_mono: "res_keeps b h r \<Longrightarrow> b \<le> b' \<Longrightarrow> res_keeps b' h r"
  by (cases r) (auto intro: keeps_mono)

lemma res_keeps_trans: "keeps b h h1 \<Longrightarrow> res_keeps b h1 r \<Longrightarrow> res_keeps b h r"
  by (cases r) (auto intro: keeps_trans)

lemma keeps_same_nodes: "nodes h' = nodes h \<Longrightarrow> keeps b h h'"
  by (simp add: keeps_def)

lemma keeps_upd_node: "n < b \<Longrightarrow> keeps b h (upd_node h n f)"
  by (simp add: keeps_def upd_node_def)

lemma keeps_upd_shared: "keeps b h (upd_node h n (\<lambda>nd. nd\<lparr>n_shared_obj := s\<rparr>))"
  unfolding keeps_def
proof (intro allI impI)
  fix i
  have "n_dirty (nodes (upd_node h n (\<lambda>nd. nd\<lparr>n_shared_obj := s\<rparr>)) ! i) = n_dirty (nodes h ! i)"
    by (rule nth_upd_field) simp
  moreover have "n_current (nodes (upd_node h n (\<lambda>nd. nd\<lparr>n_shared_obj := s\<rparr>)) ! i) =
      n_current (nodes h ! i)"
    by (rule nth_upd_field) simp
  ultimately show "n_dirty (nodes (upd_node h n (\<lambda>nd. nd\<lparr>n_shared_obj := s\<rparr>)) ! i) =
      n_dirty (nodes h ! i) \<and>
      n_current (nodes (upd_node h n (\<lambda>nd. nd\<lparr>n_shared_obj := s\<rparr>)) ! i) = n_current (nodes h ! i)"
    by simp
qed

lemma keeps_set_obj: "keeps b h (set_obj h n v)"
proof (cases "n_shared_obj (nodes h ! n)")
  case None
  have "keeps b (h\<lparr>cells := cells h @ [v]\<rparr>)
          (upd_node (h\<lparr>cells := cells h @ [v]\<rparr>) n (\<lambda>nd. nd\<lparr>n_shared_obj := Some (length (cells h))\<rparr>))"
    by (rule keeps_upd_shared)
  moreover have "keeps b h (h\<lparr>cells := cells h @ [v]\<rparr>)" by (simp add: keeps_same_nodes)
  ultimately show ?thesis using None by (auto simp: set_obj_def intro: keeps_trans)
next
  case (Some c)
  then show ?thesis by (simp add: set_obj_def keeps_same_nodes)
qed

lemma refs_belowD:
  "refs_below h \<Longrightarrow> i < length (nodes h) \<Longrightarrow> m \<in> set (node_refs (nodes h ! i)) \<Longrightarrow> m < i"
  by (auto simp: refs_below_def list_all_iff)

lemma refs_below_evolves:
  assumes "evolves h h'" and "refs_below h"
  shows "refs_below h'"
proof -
  have l: "length (nodes h') = length (nodes h)" using assms(1) by (simp add: evolves_def)
  have "node_refs (nodes h' ! i) = node_refs (nodes h ! i)" if "i < length (nodes h)" for i
    using evolves_fields(1,4,6)[OF assms(1) that] by (simp add: node_refs_def)
  then show ?thesis using assms(2) l by (simp add: refs_below_def list_all_iff)
qed

lemma set_option_list: "set (case x of None \<Rightarrow> [] | Some p \<Rightarrow> [p]) = {p. x = Some p}"
  by (cases x) auto

lemma set_producer_list:
  "set (case f of NodeFn m ps \<Rightarrow> [m] | _ \<Rightarrow> []) = {m. \<exists>ps. f = NodeFn m ps}"
  by (cases f) auto

lemma set_node_operands:
  "set (concat (map (\<lambda>a. case node_of a of None \<Rightarrow> [] | Some m \<Rightarrow> [m]) as)) =
     {m. \<exists>a\<in>set as. node_of a = Some m}"
  by (induction as) (auto split: option.splits)

lemma node_refs_iff:
  "m \<in> set (node_refs nd) \<longleftrightarrow>
     n_prev nd = Some m \<or> (\<exists>ps. n_fn nd = NodeFn m ps) \<or>
     (\<exists>op a. n_operation nd = Some op \<and> a \<in> set (op_args op @ map snd (op_kwargs op)) \<and>
             node_of a = Some m)"
proof (cases "n_operation nd")
  case None
  then show ?thesis
    by (simp add: node_refs_def set_option_list set_producer_list)
next
  case (Some op)
  have "set (concat (map (\<lambda>a. case node_of a of None \<Rightarrow> [] | Some m \<Rightarrow> [m])
               (op_args op @ map snd (op_kwargs op)))) =
        {m. \<exists>a\<in>set (op_args op @ map snd (op_kwargs op)). node_of a = Some m}"
    by (rule set_node_operands)
  then show ?thesis using Some
    unfolding node_refs_def by (simp add: set_option_list set_producer_list) blast
qed

lemma refs_below_prev:
  "refs_below h \<Longrightarrow> n < length (nodes h) \<Longrightarrow> n_prev (nodes h ! n) = Some p \<Longrightarrow> p < n"
  using refs_belowD[of h n p] node_refs_iff[of p "nodes h ! n"] by blast

lemma refs_below_fn:
  "refs_below h \<Longrightarrow> n < length (nodes h) \<Longrightarrow> n_fn (nodes h ! n) = NodeFn m ps \<Longrightarrow> m < n"
  using refs_belowD[of h n m] node_refs_iff[of m "nodes h ! n"] by blast

lemma refs_below_args:
  "refs_below h \<Longrightarrow> n < length (nodes h) \<Longrightarrow> n_operation (nodes h ! n) = Some op \<Longrightarrow>
   a \<in> set (op_args op @ map snd (op_kwargs op)) \<Longrightarrow> node_of a = Some m \<Longrightarrow> m < n"
  using refs_belowD[of h n m] node_refs_iff[of m "nodes h ! n"] by blast

lemma resolve_args_keeps_aux:
  assumes ev: "\<And>h m. refs_below h \<Longrightarrow> m < length (nodes h) \<Longrightarrow>
                 res_keeps (Suc m) h (eval E k h m)"
  shows "refs_below h \<Longrightarrow> b \<le> length (nodes h) \<Longrightarrow>
         (\<And>a m. a \<in> set as \<Longrightarrow> node_of a = Some m \<Longrightarrow> m < b) \<Longrightarrow>
         res_keeps b h (resolve_args E k h as)"
proof (induction as arbitrary: h)
  case Nil
  show ?case by (simp add: keeps_refl)
next
  case (Cons a as)
  define r where "r = (case node_of a of Some m \<Rightarrow> eval E k h m | None \<Rightarrow> Ok (resolve_plain h a) h)"
  have r: "res_keeps b h r \<and> res_evolves h r"
  proof (cases "node_of a")
    case None
    then show ?thesis by (simp add: r_def keeps_refl evolves_refl)
  next
    case (Some m)
    have mb: "m < b" using Cons.prems(3)[of a m] Some by simp
    then have "m < length (nodes h)" using Cons.prems(2) by simp
    then have "res_keeps (Suc m) h (eval E k h m)" using ev Cons.prems(1) by blast
    then have "res_keeps b h (eval E k h m)" using mb by (auto intro: res_keeps_mono)
    then show ?thesis using Some eval_evolves[of h E k m] by (simp add: r_def)
  qed
  show ?case
  proof (cases r)
    case (Ok v h1)
    then have k1: "keeps b h h1" and e1: "evolves h h1" using r by simp_all
    have rb: "refs_below h1" using e1 Cons.prems(1) by (rule refs_below_evolves)
    have l1: "b \<le> length (nodes h1)" using e1 Cons.prems(2) by (simp add: evolves_def)
    have "\<And>a' m. a' \<in> set as \<Longrightarrow> node_of a' = Some m \<Longrightarrow> m < b"
      using Cons.prems(3) by auto
    then have "res_keeps b h1 (resolve_args E k h1 as)"
      using Cons.IH[OF rb l1] by blast
    then have "res_keeps b h (resolve_args E k h1 as)" using k1 by (rule res_keeps_trans[rotated])
    then show ?thesis using Ok
      by (auto simp: r_def[symmetric] split: res.splits)
  next
    case (Raise e h1)
    then show ?thesis using r by (simp add: r_def[symmetric])
  next
    case Diverge
    then show ?thesis by (simp add: r_def[symmetric])
  qed
qed

lemma get_obj_keeps_aux:
  assumes ev: "\<And>h m. refs_below h \<Longrightarrow> m < length (nodes h) \<Longrightarrow>
                 res_keeps (Suc m) h (eval E k h m)"
    and rb: "refs_below h" and n: "n < length (nodes h)"
  shows "res_keeps n h (get_obj (eval E k) h n)"
proof (cases "n_shared_obj (nodes h ! n)")
  case (Some c)
  then show ?thesis by (simp add: get_obj_def keeps_refl)
next
  case None
  have r: "res_keeps n h (eval_function (eval E k) h (n_fn (nodes h ! n)))"
  proof (cases "n_fn (nodes h ! n)")
    case (NodeFn m ps)
    have mn: "m < n" using rb n NodeFn by (rule refs_below_fn)
    then have "res_keeps (Suc m) h (eval E k h m)" using ev rb n by simp
    then have "res_keeps n h (eval E k h m)" using mn by (auto intro: res_keeps_mono)
    then show ?thesis using NodeFn by (simp add: eval_function_def)
  qed (simp_all add: eval_function_def keeps_refl)
  show ?thesis
  proof (cases "eval_function (eval E k) h (n_fn (nodes h ! n))")
    case (Ok v h1)
    then have "keeps n h h1" using r by simp
    then have "keeps n h (set_obj h1 n v)" using keeps_set_obj by (rule keeps_trans)
    then show ?thesis using None Ok by (simp add: get_obj_def Let_def)
  next
    case (Raise e h1)
    then show ?thesis using None r by (simp add: get_obj_def)
  next
    case Diverge
    then show ?thesis using None by (simp add: get_obj_def)
  qed
qed

lemma input_keeps_aux:
  assumes ev: "\<And>h m. refs_below h \<Longrightarrow> m < length (nodes h) \<Longrightarrow>
                 res_keeps (Suc m) h (eval E k h m)"
    and rb: "refs_below h" and n: "n < length (nodes h)"
  shows "res_keeps n h (case n_prev (nodes h ! n) of
                          None \<Rightarrow> get_obj (eval E k) h n
                        | Some p \<Rightarrow> eval E k h p)"
proof (cases "n_prev (nodes h ! n)")
  case None
  then show ?thesis using get_obj_keeps_aux[OF ev rb n] by simp
next
  case (Some p)
  have pn: "p < n" using rb n Some by (rule refs_below_prev)
  then have "res_keeps (Suc p) h (eval E k h p)" using ev rb n by simp
  then have "res_keeps n h (eval E k h p)" using pn by (auto intro: res_keeps_mono)
  then show ?thesis using Some by simp
qed

lemma apply_operation_keeps: "res_keeps b h (apply_operation E h obj op ras rkw)"
  by (auto simp: apply_operation_def of_sum_def log_call_def keeps_refl keeps_same_nodes
           split: fnref.splits option.splits list.splits sum.splits)

lemma finish_eval_keeps: "res_keeps (Suc n) h (finish_eval E h n obj)"
  by (auto simp: finish_eval_def Let_def keeps_upd_node split: option.splits)

text \<open>The store in which the operation of a dirty node is applied: the node itself is
  as it was.\<close>

lemma eval_steps_keep_aux:
  assumes ev: "\<And>h m. refs_below h \<Longrightarrow> m < length (nodes h) \<Longrightarrow>
                 res_keeps (Suc m) h (eval E k h m)"
    and rb: "refs_below h" and n: "n < length (nodes h)"
    and op: "n_operation (nodes h ! n) = Some op"
    and i: "(case n_prev (nodes h ! n) of
               None \<Rightarrow> get_obj (eval E k) h n
             | Some p \<Rightarrow> eval E k h p) = Ok x h1"
  shows "keeps n h h1 \<and> evolves h h1 \<and>
         res_keeps n h (resolve_args E k h1 (op_args op)) \<and>
         (\<forall>ras h2. resolve_args E k h1 (op_args op) = Ok ras h2 \<longrightarrow>
            evolves h h2 \<and> res_keeps n h (resolve_args E k h2 (map snd (op_kwargs op))))"
proof -
  have k1: "keeps n h h1" using input_keeps_aux[OF ev rb n] i by simp
  have e1: "evolves h h1" using eval_input_evolves[where h=h and n=n and E=E and k=k] i by simp
  have rb1: "refs_below h1" using e1 rb by (rule refs_below_evolves)
  have l1: "n \<le> length (nodes h1)" using e1 n by (simp add: evolves_def)
  have a1: "m < n" if "a \<in> set (op_args op)" and "node_of a = Some m" for a m
    using refs_below_args[OF rb n op _ that(2)] that(1) by simp
  have a2: "m < n" if "a \<in> set (map snd (op_kwargs op))" and "node_of a = Some m" for a m
    using refs_below_args[OF rb n op _ that(2)] that(1) by simp
  have r1: "res_keeps n h1 (resolve_args E k h1 (op_args op))"
    using resolve_args_keeps_aux[OF ev rb1 l1] a1 by blast
  then have r1': "res_keeps n h (resolve_args E k h1 (op_args op))"
    using k1 by (rule res_keeps_trans[rotated])
  have r2: "evolves h h2 \<and> res_keeps n h (resolve_args E k h2 (map snd (op_kwargs op)))"
    if ok: "resolve_args E k h1 (op_args op) = Ok ras h2" for ras h2
  proof -
    have e2: "evolves h h2" using ok e1 by (rule resolve_args_Ok_evolves)
    have k2: "keeps n h h2" using r1' ok by simp
    have rb2: "refs_below h2" using e2 rb by (rule refs_below_evolves)
    have l2: "n \<le> length (nodes h2)" using e2 n by (simp add: evolves_def)
    have "res_keeps n h2 (resolve_args E k h2 (map snd (op_kwargs op)))"
      using resolve_args_keeps_aux[OF ev rb2 l2] a2 by blast
    then show ?thesis using k2 e2 by (auto intro: res_keeps_trans)
  qed
  show ?thesis using k1 e1 r1' r2 by blast
qed

lemma eval_keeps:
  "refs_below h \<Longrightarrow> n < length (nodes h) \<Longrightarrow> res_keeps (Suc n) h (eval E k h n)"
proof (induction k arbitrary: h n)
  case 0
  show ?case by simp
next
  case (Suc k)
  note rb = Suc.prems(1) and n = Suc.prems(2)
  have ev: "\<And>h m. refs_below h \<Longrightarrow> m < length (nodes h) \<Longrightarrow>
                 res_keeps (Suc m) h (eval E k h m)"
    by (rule Suc.IH)
  show ?case
  proof (cases "n_dirty (nodes h ! n)")
    case False
    then show ?thesis by (simp add: keeps_refl)
  next
    case dirty: True
    define r0 where "r0 = (case n_prev (nodes h ! n) of
                 None \<Rightarrow> get_obj (eval E k) h n
               | Some p \<Rightarrow> eval E k h p)"
    have r0k: "res_keeps n h r0" unfolding r0_def using ev rb n by (rule input_keeps_aux)
    have r0e: "res_evolves h r0" unfolding r0_def by (rule eval_input_evolves)
    show ?thesis
    proof (cases r0)
      case (Ok x h1)
      then have k1: "keeps n h h1" and e1: "evolves h h1" using r0k r0e by simp_all
      have k1': "keeps (Suc n) h h1" using k1 by (rule keeps_mono) simp
      show ?thesis
      proof (cases "n_operation (nodes h ! n)")
        case None
        then have "n_operation (nodes h1 ! n) = None" using evolves_fields(4)[OF e1 n] by simp
        then have "eval E (Suc k) h n = finish_eval E h1 n x"
          using dirty Ok by (simp add: r0_def[symmetric])
        then show ?thesis using k1' finish_eval_keeps[of n h1 E x] by (auto intro: res_keeps_trans)
      next
        case (Some op)
        then have op1: "n_operation (nodes h1 ! n) = Some op" using evolves_fields(4)[OF e1 n] by simp
        note S = eval_steps_keep_aux[OF ev rb n Some Ok[unfolded r0_def]]
        show ?thesis
        proof (cases "resolve_args E k h1 (op_args op)")
          case ok2: (Ok ras h2)
          then have k2: "res_keeps n h (resolve_args E k h2 (map snd (op_kwargs op)))"
            using S by blast
          show ?thesis
          proof (cases "resolve_args E k h2 (map snd (op_kwargs op))")
            case ok3: (Ok rks h3)
            then have k3: "keeps n h h3" using k2 by simp
            then have k3': "keeps (Suc n) h h3" by (rule keeps_mono) simp
            have a: "res_keeps (Suc n) h3
                       (apply_operation E h3 x op ras (zip (map fst (op_kwargs op)) rks))"
              by (rule apply_operation_keeps)
            show ?thesis
            proof (cases "apply_operation E h3 x op ras (zip (map fst (op_kwargs op)) rks)")
              case ok4: (Ok obj' h4)
              then have "keeps (Suc n) h h4" using a k3' by (auto intro: keeps_trans)
              then have "res_keeps (Suc n) h (finish_eval E h4 n obj')"
                using finish_eval_keeps[of n h4 E obj'] by (rule res_keeps_trans)
              then show ?thesis using dirty Ok op1 ok2 ok3 ok4 by (simp add: r0_def[symmetric])
            next
              case (Raise e h4)
              then have "keeps (Suc n) h h4" using a k3' by (auto intro: keeps_trans)
              then show ?thesis using dirty Ok op1 ok2 ok3 Raise by (simp add: r0_def[symmetric])
            next
              case Diverge
              then show ?thesis using dirty Ok op1 ok2 ok3 by (simp add: r0_def[symmetric])
            qed
          next
            case (Raise e h3)
            then have "keeps n h h3" using k2 by simp
            then have "keeps (Suc n) h h3" by (rule keeps_mono) simp
            then show ?thesis using dirty Ok op1 ok2 Raise by (simp add: r0_def[symmetric])
          next
            case Diverge
            then show ?thesis using dirty Ok op1 ok2 by (simp add: r0_def[symmetric])
          qed
        next
          case (Raise e h2)
          have "res_keeps n h (resolve_args E k h1 (op_args op))" using S by blast
          then have "keeps n h h2" using Raise by simp
          then have "keeps (Suc n) h h2" by (rule keeps_mono) simp
          then show ?thesis using dirty Ok op1 Raise by (simp add: r0_def[symmetric])
        next
          case Diverge
          then show ?thesis using dirty Ok op1 by (simp add: r0_def[symmetric])
        qed
      qed
    next
      case (Raise e h1)
      then have "keeps n h h1" using r0k by simp
      then have "keeps (Suc n) h h1" by (rule keeps_mono) simp
      then show ?thesis using dirty Raise by (simp add: r0_def[symmetric])
    next
      case Diverge
      then show ?thesis using dirty by (simp add: r0_def[symmetric])
    qed
  qed
qed

text \<open>The store in which the operation of a dirty node is applied: the node itself is
  as it was.\<close>

lemma eval_steps_keep:
  assumes rb: "refs_below h" and n: "n < length (nodes h)"
    and op: "n_operation (nodes h ! n) = Some op"
    and i: "(case n_prev (nodes h ! n) of
               None \<Rightarrow> get_obj (eval E k) h n
             | Some p \<Rightarrow> eval E k h p) = Ok x h1"
    and a1: "resolve_args E k h1 (op_args op) = Ok ras h2"
    and a2: "resolve_args E k h2 (map snd (op_kwargs op)) = Ok rks h3"
  shows "keeps n h h3" and "evolves h h3"
proof -
  note S = eval_steps_keep_aux[OF eval_keeps rb n op i]
  have "res_keeps n h (resolve_args E k h2 (map snd (op_kwargs op)))" using S a1 by blast
  then show "keeps n h h3" using a2 by simp
  have "evolves h h2" using S a1 by blast
  then show "evolves h h3" using a2 by (rule resolve_args_Ok_evolves[rotated])
qed

lemma apply_operation_Raise_nodes:
  "apply_operation E h3 obj op ras rkw = Raise e h4 \<Longrightarrow> nodes h4 = nodes h3"
  by (auto simp: apply_operation_def of_sum_def log_call_def
           split: fnref.splits option.splits list.splits sum.splits if_splits)

lemma raised_Raise: "raised r = Some e \<Longrightarrow> r = Raise e (heap_of r)"
  by (cases r) (simp_all add: raised_def heap_of_def)

section \<open>The claims\<close>

text \<open>
  C1.  Resolving a pending accessor \<open>m\<close> attaches a get-item operation whose sole
  argument is the whole name \<open>m\<close>, for names of any length.  The code records the
  string itself as the arguments, so the operator receives one argument for each
  character: building \<^verbatim>\<open>expr.col > 1\<close> on \<^verbatim>\<open>{'col': 5, 'A': 7}\<close> records the
  arguments \<^verbatim>\<open>'c'\<close>, \<^verbatim>\<open>'o'\<close>, \<^verbatim>\<open>'l'\<close>, calls \<^verbatim>\<open>getitem(frame, 'c', 'o', 'l')\<close> and
  raises \<^verbatim>\<open>TypeError\<close>, while the one-letter accessor of \<^verbatim>\<open>expr.A > 1\<close> evaluates to
  \<^verbatim>\<open>frame['A'] > 1\<close>.
\<close>

theorem accessor_name_split_into_characters:
  "value_of frame_col = Some (Accessor 1) \<and>
   raised frame_col_gt = Some TypeError \<and>
   map n_operation (drop 2 (nodes (heap_of frame_col_gt))) =
     [Some \<lparr>op_fn = Fn Getitem, op_args = [VStr ''c'', VStr ''o'', VStr ''l''],
            op_kwargs = [], op_reverse = False\<rparr>] \<and>
   log (heap_of frame_col_gt) =
     [\<lparr>i_fn = Fn Getitem, i_args = [frame, VStr ''c'', VStr ''o'', VStr ''l''], i_kwargs = []\<rparr>] \<and>
   value_of frame_A_gt = Some 3 \<and>
   value_of (eval std_env 20 (heap_of frame_A_gt) 3) = Some (VBool True)"
  by code_simp

text \<open>
  C9.  Widget discovery on a node derived from a widget-rooted chain still reports the
  root widget.  \<^verbatim>\<open>widgets\<close> reads the producer of the node it is called on; a clone
  that is not a copy is built without the producer of its parent and gets a fresh
  \<^verbatim>\<open>Wrapper\<close> of its own, so for \<^verbatim>\<open>root = interactive(widget)\<close> the root reports the
  widget and \<^verbatim>\<open>root + 1\<close> reports none.
\<close>

theorem derived_node_loses_root_widget:
  "value_of widget_add = Some 2 \<and>
   value_of (widgets std_env 20 (heap_of widget_add) 0) = Some [0] \<and>
   value_of (widgets std_env 20 (heap_of widget_add) 2) = Some [] \<and>
   map n_fn (nodes (heap_of widget_add)) =
     [Bind (Widget 0, ''value''), Bind (Widget 0, ''value''), Bind (Wrapper 0, ''object'')]"
  by code_simp

text \<open>
  C2.  Two consecutive \<^verbatim>\<open>eval()\<close> calls return the identical result, and for a node
  with a pending accessor the cached value equals the returned one.  With
  \<^verbatim>\<open>p = expr.A\<close> dirty after \<^verbatim>\<open>expr.set({'col': 5, 'A': 8})\<close>, the first \<^verbatim>\<open>p.eval()\<close>
  returns 8 and caches the whole frame, and the second returns the frame.
\<close>

theorem accessor_eval_twice_differs:
  "value_of frame_A = Some (Accessor 1) \<and>
   n_method (nodes (heap_of frame_A_set) ! 1) = Some ''A'' \<and>
   n_dirty (nodes (heap_of frame_A_set) ! 1) \<and>
   value_of frame_A_eval1 = Some (VInt 8) \<and>
   n_current (nodes (heap_of frame_A_eval1) ! 1) = frame2 \<and>
   value_of frame_A_eval2 = Some frame2"
  by code_simp

text \<open>
  C2, amended.  An \<^verbatim>\<open>eval()\<close> that returns leaves the node clean.  For a node with no
  pending accessor a second \<^verbatim>\<open>eval()\<close> returns the identical result and leaves the
  store as it is, the log of invocations included: nothing is invoked again.  For a
  dirty node the returned value is the pending accessor read off the value that was
  cached, so with an accessor pending the cache holds the value before the attribute
  read.
\<close>

theorem eval_twice_without_accessor:
  assumes "eval E k h n = Ok v h'" and "n < length (nodes h)"
  shows "\<not> n_dirty (nodes h' ! n) \<and>
         (\<not> truthy_method (n_method (nodes h ! n)) \<longrightarrow> eval E (Suc j) h' n = Ok v h') \<and>
         (n_dirty (nodes h ! n) \<longrightarrow> v = exposed E (nodes h' ! n))"
proof -
  have clean: "\<not> n_dirty (nodes h' ! n)" using assms by (rule eval_Ok_clean)
  have ev: "evolves h h'" using assms(1) by (rule eval_Ok_evolves)
  have m: "n_method (nodes h' ! n) = n_method (nodes h ! n)"
    using evolves_fields(3)[OF ev assms(2)] .
  have dv: "v = exposed E (nodes h' ! n)" if d: "n_dirty (nodes h ! n)"
    using assms d by (rule eval_dirty_Ok_value)
  have "eval E (Suc j) h' n = Ok v h'" if na: "\<not> truthy_method (n_method (nodes h ! n))"
  proof (cases "n_dirty (nodes h ! n)")
    case True
    then have "v = n_current (nodes h' ! n)" using dv[OF True] m na by (simp add: exposed_def)
    then show ?thesis using clean by simp
  next
    case False
    obtain i where "k = Suc i" using assms(1) by (cases k) auto
    then have "v = n_current (nodes h ! n)" and "h' = h" using assms(1) False by auto
    then show ?thesis using False by simp
  qed
  then show ?thesis using clean dv by blast
qed

theorem eval_twice_without_accessor_witness:
  "value_of const_eval = Some (VInt 20) \<and>
   \<not> n_dirty (nodes (heap_of const_eval) ! 2) \<and>
   eval std_env 20 (heap_of const_eval) 2 = Ok (VInt 20) (heap_of const_eval) \<and>
   VInt 20 = exposed std_env (nodes (heap_of const_eval) ! 2)"
proof -
  have v: "value_of const_eval = Some (VInt 20)" by code_simp
  then have e: "eval std_env 20 (heap_of const_set) 2 = Ok (VInt 20) (heap_of const_eval)"
    using value_of_Ok[OF v] by (simp add: const_eval_def)
  have l: "2 < length (nodes (heap_of const_set))" by code_simp
  have a: "\<not> truthy_method (n_method (nodes (heap_of const_set) ! 2))" by code_simp
  have d: "n_dirty (nodes (heap_of const_set) ! 2)" by code_simp
  show ?thesis
    using eval_twice_without_accessor[OF e l, of 19] v a d by simp
qed




text \<open>
  C8.  Building a chain never invokes an operator or a method of the wrapped value
  before \<^verbatim>\<open>eval()\<close> is called; building \<^verbatim>\<open>(root.head(3)) * 2\<close> does not invoke
  \<^verbatim>\<open>head\<close>.  The constructor looks \<^verbatim>\<open>self._setup_invalidations\<close> up on the node it
  has just marked dirty, and that lookup runs the hook of \<^verbatim>\<open>__getattribute__\<close>, which
  evaluates the node.  With \<^verbatim>\<open>root = interactive([1, 2, 3, 4])\<close>: once
  \<^verbatim>\<open>root.head(3)\<close> is built \<^verbatim>\<open>head\<close> has been invoked, and once \<^verbatim>\<open>* 2\<close> is applied
  it has been invoked again (for the copy that resolves the accessor), and \<^verbatim>\<open>mul\<close>
  too; \<^verbatim>\<open>eval\<close> is never called by the caller.
\<close>

theorem building_invokes_head:
  "value_of list_head3 = Some 3 \<and>
   log (heap_of list_head3) =
     [\<lparr>i_fn = Method ''head'', i_args = [VList [VInt 1, VInt 2, VInt 3, VInt 4], VInt 3],
       i_kwargs = []\<rparr>] \<and>
   value_of list_head3_mul = Some 5 \<and>
   map i_fn (log (heap_of list_head3_mul)) = [Method ''head'', Method ''head'', Fn Mul]"
  by code_simp

text \<open>
  C4.  For every binary operator applied with the expression on the right
  (\<^verbatim>\<open>5 - expr\<close>), evaluation calls \<^verbatim>\<open>operator(firstResolvedArg, inputValue, ...)\<close>.
  \<^verbatim>\<open>__rlshift__\<close> and \<^verbatim>\<open>__rrshift__\<close> name \<^verbatim>\<open>operator.rlshift\<close> and
  \<^verbatim>\<open>operator.rrshift\<close>, which the module \<^verbatim>\<open>operator\<close> does not have, and pass no
  reverse flag: \<^verbatim>\<open>5 << expr\<close> and \<^verbatim>\<open>5 >> expr\<close> never return a node, on any store,
  and on the widget root of value 4 \<^verbatim>\<open>5 << root\<close> raises \<^verbatim>\<open>AttributeError\<close> where
  \<^verbatim>\<open>lshift(5, 4)\<close> is 80; \<^verbatim>\<open>5 - root\<close> builds a node and evaluates to
  \<^verbatim>\<open>sub(5, 4)\<close>.
\<close>

theorem reflected_shift_raises:
  "value_of (reflected_op E k h n Rlshift other) = None \<and>
   value_of (reflected_op E k h n Rrshift other) = None \<and>
   raised widget_rlshift = Some AttributeError \<and>
   raised widget_rrshift = Some AttributeError \<and>
   py_apply std_env Lshift [VInt 5, VInt 4] [] = Inr (VInt 80) \<and>
   value_of widget_rsub = Some 2 \<and>
   value_of (eval std_env 20 (heap_of widget_rsub) 2) = Some (VInt 1)"
proof -
  have 1: "value_of (reflected_op E k h n r other) = None" if "reflected_operator r = None" for r
    using that by (simp add: reflected_op_def value_of_def split: res.splits)
  have 2: "raised widget_rlshift = Some AttributeError \<and>
   raised widget_rrshift = Some AttributeError \<and>
   py_apply std_env Lshift [VInt 5, VInt 4] [] = Inr (VInt 80) \<and>
   value_of widget_rsub = Some 2 \<and>
   value_of (eval std_env 20 (heap_of widget_rsub) 2) = Some (VInt 1)"
    by code_simp
  show ?thesis using 1[of Rlshift] 1[of Rrshift] 2 by simp
qed





text \<open>
  C6.  When the operator of the operation of a node raises during \<^verbatim>\<open>eval\<close>, the
  exception propagates unmodified, the cache of the node is not updated and the node
  stays dirty.  For a dirty node \<open>n\<close> with an operation, in a store whose nodes
  refer to older nodes only: when the input value and the arguments have been
  resolved and applying the operation raises \<open>e\<close> in the store \<open>h4\<close>, then
  \<^verbatim>\<open>eval\<close> raises \<open>e\<close> in \<open>h4\<close>, where \<open>n\<close> is dirty and has the cache it had
  before; the nodes of \<open>h4\<close> are those of the store the operation was applied in.
\<close>

theorem operator_exception_leaves_node_dirty:
  assumes "refs_below h" and "n < length (nodes h)" and "n_dirty (nodes h ! n)"
    and "n_operation (nodes h ! n) = Some op"
    and "(case n_prev (nodes h ! n) of
            None \<Rightarrow> get_obj (eval E k) h n
          | Some p \<Rightarrow> eval E k h p) = Ok x h1"
    and "resolve_args E k h1 (op_args op) = Ok ras h2"
    and "resolve_args E k h2 (map snd (op_kwargs op)) = Ok rks h3"
    and "apply_operation E h3 x op ras (zip (map fst (op_kwargs op)) rks) = Raise e h4"
  shows "eval E (Suc k) h n = Raise e h4 \<and>
         n_dirty (nodes h4 ! n) \<and>
         n_current (nodes h4 ! n) = n_current (nodes h ! n) \<and>
         nodes h4 = nodes h3"
proof -
  have k3: "keeps n h h3" and e3: "evolves h h3"
    using eval_steps_keep[OF assms(1,2,4,5,6,7)] by simp_all
  have e1: "evolves h h1"
    using eval_input_evolves[where h=h and n=n and E=E and k=k] assms(5) by simp
  have op1: "n_operation (nodes h1 ! n) = Some op"
    using evolves_fields(4)[OF e1 assms(2)] assms(4) by simp
  have 1: "eval E (Suc k) h n = Raise e h4"
    using assms(3,5,6,7,8) op1 by simp
  have n4: "nodes h4 = nodes h3" using assms(8) by (rule apply_operation_Raise_nodes)
  have "n_dirty (nodes h3 ! n) = n_dirty (nodes h ! n) \<and>
        n_current (nodes h3 ! n) = n_current (nodes h ! n)"
    using k3 by (simp add: keeps_def)
  then show ?thesis using 1 n4 assms(3) by simp
qed

theorem operator_exception_leaves_node_dirty_witness:
  "n_dirty (nodes (heap_of const_none_set) ! 2) \<and>
   n_current (nodes (heap_of const_none_set) ! 2) = VInt 6 \<and>
   value_of const_none_parent = Some VNone \<and>
   raised const_none_eval = Some TypeError \<and>
   n_dirty (nodes (heap_of const_none_eval) ! 2) \<and>
   n_current (nodes (heap_of const_none_eval) ! 2) = VInt 6"
proof -
  let ?h = "heap_of const_none_set" and ?h1 = "heap_of const_none_parent"
  let ?a = "apply_operation std_env ?h1 VNone times_two [VInt 2] []"
  have rb: "refs_below ?h" by code_simp
  have l: "2 < length (nodes ?h)" by code_simp
  have d: "n_dirty (nodes ?h ! 2)" by code_simp
  have c: "n_current (nodes ?h ! 2) = VInt 6" by code_simp
  have o: "n_operation (nodes ?h ! 2) = Some times_two" by code_simp
  have vp: "value_of const_none_parent = Some VNone" by code_simp
  have pr: "n_prev (nodes ?h ! 2) = Some 1" by code_simp
  have p: "(case n_prev (nodes ?h ! 2) of
            None \<Rightarrow> get_obj (eval std_env 19) ?h 2
          | Some p \<Rightarrow> eval std_env 19 ?h p) = Ok VNone ?h1"
    using value_of_Ok[OF vp] pr by (simp add: const_none_parent_def)
  have a1: "resolve_args std_env 19 ?h1 (op_args times_two) = Ok [VInt 2] ?h1"
    by (simp add: times_two_def node_of_def resolve_plain_def transform_dependency_def)
  have a2: "resolve_args std_env 19 ?h1 (map snd (op_kwargs times_two)) = Ok [] ?h1"
    by (simp add: times_two_def)
  have ra: "raised ?a = Some TypeError" by code_simp
  have ap: "apply_operation std_env ?h1 VNone times_two [VInt 2]
              (zip (map fst (op_kwargs times_two)) []) = Raise TypeError (heap_of ?a)"
    using raised_Raise[OF ra] by (simp add: times_two_def)
  note T = operator_exception_leaves_node_dirty[OF rb l d o p a1 a2 ap]
  have e: "const_none_eval = Raise TypeError (heap_of ?a)"
    using T by (simp add: const_none_eval_def)
  have r: "raised const_none_eval = Some TypeError" unfolding e by (simp add: raised_def)
  have hh: "heap_of const_none_eval = heap_of ?a" unfolding e by (simp add: heap_of_def)
  have d4: "n_dirty (nodes (heap_of const_none_eval) ! 2)" unfolding hh using T by blast
  have c4: "n_current (nodes (heap_of const_none_eval) ! 2) = n_current (nodes ?h ! 2)"
    unfolding hh using T by blast
  show ?thesis using d c vp r d4 c4 by simp
qed

text \<open>
  C3.  With \<^verbatim>\<open>root = interactive(3)\<close> and \<^verbatim>\<open>chain = root * 2\<close>, \<^verbatim>\<open>chain.eval()\<close> is 6
  and, after \<^verbatim>\<open>root.set(10)\<close>, 20; the sibling chain \<^verbatim>\<open>root + 1\<close> built from the same
  root evaluates to 11 after the \<^verbatim>\<open>set\<close>.  Every node that \<^verbatim>\<open>_clone\<close> makes has the
  root cell of the node it is made from: the five nodes of the two chains hold the
  one cell of the store.
\<close>

theorem set_reaches_every_chain:
  assumes "clone E k h n operation copy kw = Ok m h'" and "n < length (nodes h)"
  shows "n_shared_obj (nodes h' ! m) = n_shared_obj (nodes h' ! n) \<and>
         n_shared_obj (nodes h' ! n) \<noteq> None \<and>
         (\<forall>c. n_shared_obj (nodes h ! n) = Some c \<longrightarrow> n_shared_obj (nodes h' ! m) = Some c) \<and>
         value_of const_root = Some 0 \<and>
         value_of const_chain = Some 2 \<and>
         value_of const_sibling = Some 4 \<and>
         value_of (eval std_env 20 (heap_of const_sibling) 2) = Some (VInt 6) \<and>
         value_of const_set = Some 0 \<and>
         value_of (eval std_env 20 (heap_of const_set) 2) = Some (VInt 20) \<and>
         value_of (eval std_env 20 (heap_of const_set) 4) = Some (VInt 11) \<and>
         map n_shared_obj (nodes (heap_of const_set)) = replicate 5 (Some 0) \<and>
         length (cells (heap_of const_set)) = 1"
proof -
  note C = clone_Ok[OF assms]
  have 1: "\<forall>c. n_shared_obj (nodes h ! n) = Some c \<longrightarrow> n_shared_obj (nodes h' ! m) = Some c"
    using grows_shared[OF C(3) assms(2)] C(11) by simp
  have 2: "value_of const_root = Some 0 \<and>
         value_of const_chain = Some 2 \<and>
         value_of const_sibling = Some 4 \<and>
         value_of (eval std_env 20 (heap_of const_sibling) 2) = Some (VInt 6) \<and>
         value_of const_set = Some 0 \<and>
         value_of (eval std_env 20 (heap_of const_set) 2) = Some (VInt 20) \<and>
         value_of (eval std_env 20 (heap_of const_set) 4) = Some (VInt 11) \<and>
         map n_shared_obj (nodes (heap_of const_set)) = replicate 5 (Some 0) \<and>
         length (cells (heap_of const_set)) = 1"
    by code_simp
  show ?thesis using C(11) C(12) 1 2 by blast
qed

theorem set_reaches_every_chain_witness:
  "value_of const_clone_mul = Some 1 \<and>
   n_shared_obj (nodes (heap_of const_root) ! 0) = Some 0 \<and>
   n_shared_obj (nodes (heap_of const_clone_mul) ! 1) = Some 0 \<and>
   n_shared_obj (nodes (heap_of const_clone_mul) ! 0) = Some 0"
proof -
  have v: "value_of const_clone_mul = Some 1" by code_simp
  have c: "clone std_env 20 (heap_of const_root) 0 (Some times_two) False [] =
             Ok 1 (heap_of const_clone_mul)"
    using value_of_Ok[OF v] by (simp add: const_clone_mul_def)
  have l: "0 < length (nodes (heap_of const_root))" by code_simp
  have s: "n_shared_obj (nodes (heap_of const_root) ! 0) = Some 0" by code_simp
  note T = set_reaches_every_chain[OF c l]
  have 1: "n_shared_obj (nodes (heap_of const_clone_mul) ! 1) = Some 0" using T s by blast
  have "n_shared_obj (nodes (heap_of const_clone_mul) ! 1) =
        n_shared_obj (nodes (heap_of const_clone_mul) ! 0)" using T by blast
  then have 2: "n_shared_obj (nodes (heap_of const_clone_mul) ! 0) = Some 0" using 1 by simp
  show ?thesis using v s 1 2 by simp
qed

end
